theory Spec2Isabelle
  imports Main "HOL-Library.Sublist" "HOL-Library.Multiset"
begin

section \<open>Go strings and the library functions the parser calls\<close>

text \<open>
  A Go string is a sequence of bytes, modelled as \<^typ>\<open>string\<close> (a list of 8-bit
  characters). The parser of \<^verbatim>\<open>cmd/portscan/main.go\<close> uses
  \<^verbatim>\<open>strings.TrimSpace\<close>, \<^verbatim>\<open>strings.Split\<close>, \<^verbatim>\<open>strings.SplitN\<close>,
  \<^verbatim>\<open>strings.Contains\<close>, \<^verbatim>\<open>strconv.Atoi\<close> and \<^verbatim>\<open>sort.Ints\<close> of the Go
  standard library; they are modelled here from their documented behaviour.
\<close>

subsection \<open>strings.TrimSpace\<close>

text \<open>
  \<^verbatim>\<open>TrimSpace\<close> removes leading and trailing white space "as defined by Unicode".
  Go decodes the string as UTF-8; a rune is white space exactly when it is one of
  U+0009..U+000D, U+0020, U+0085, U+00A0, U+1680, U+2000..U+200A, U+2028, U+2029,
  U+202F, U+205F, U+3000. UTF-8 decoding accepts only the shortest encoding of a rune (an
  invalid byte decodes to U+FFFD, which is not white space), so a white-space rune stands
  at the start (at the end) of a string exactly when one of the following byte sequences
  is a prefix (a suffix) of it.
\<close>

definition spaceEncodings :: "string list" where
  "spaceEncodings =
    [[CHR 0x09], [CHR 0x0A], [CHR 0x0B], [CHR 0x0C], [CHR 0x0D], [CHR 0x20],
     [CHR 0xC2, CHR 0x85], [CHR 0xC2, CHR 0xA0],
     [CHR 0xE1, CHR 0x9A, CHR 0x80],
     [CHR 0xE2, CHR 0x80, CHR 0x80], [CHR 0xE2, CHR 0x80, CHR 0x81],
     [CHR 0xE2, CHR 0x80, CHR 0x82], [CHR 0xE2, CHR 0x80, CHR 0x83],
     [CHR 0xE2, CHR 0x80, CHR 0x84], [CHR 0xE2, CHR 0x80, CHR 0x85],
     [CHR 0xE2, CHR 0x80, CHR 0x86], [CHR 0xE2, CHR 0x80, CHR 0x87],
     [CHR 0xE2, CHR 0x80, CHR 0x88], [CHR 0xE2, CHR 0x80, CHR 0x89],
     [CHR 0xE2, CHR 0x80, CHR 0x8A],
     [CHR 0xE2, CHR 0x80, CHR 0xA8], [CHR 0xE2, CHR 0x80, CHR 0xA9],
     [CHR 0xE2, CHR 0x80, CHR 0xAF],
     [CHR 0xE2, CHR 0x81, CHR 0x9F],
     [CHR 0xE3, CHR 0x80, CHR 0x80]]"

text \<open>The white-space rune at the start (at the end) of a string, as its encoding.\<close>

definition spacePrefix :: "string \<Rightarrow> string option" where
  "spacePrefix s = List.find (\<lambda>e. prefix e s) spaceEncodings"

definition spaceSuffix :: "string \<Rightarrow> string option" where
  "spaceSuffix s = List.find (\<lambda>e. suffix e s) spaceEncodings"

lemma spaceEncodings_nonempty: "e \<in> set spaceEncodings \<Longrightarrow> e \<noteq> []"
  by (auto simp: spaceEncodings_def)

lemma spacePrefix_SomeD:
  "spacePrefix s = Some e \<Longrightarrow> e \<in> set spaceEncodings \<and> prefix e s"
  unfolding spacePrefix_def find_Some_iff by (metis nth_mem)

lemma spaceSuffix_SomeD:
  "spaceSuffix s = Some e \<Longrightarrow> e \<in> set spaceEncodings \<and> suffix e s"
  unfolding spaceSuffix_def find_Some_iff by (metis nth_mem)

text \<open>\<^verbatim>\<open>TrimLeftFunc(s, unicode.IsSpace)\<close>: drop white-space runes from the front.\<close>

function trimLeftSpace :: "string \<Rightarrow> string" where
  "trimLeftSpace s =
     (case spacePrefix s of
        None \<Rightarrow> s
      | Some e \<Rightarrow> trimLeftSpace (drop (length e) s))"
  by pat_completeness auto
termination
proof (relation "measure length")
  show "wf (measure length)" by simp
next
  fix s e
  assume "spacePrefix s = Some e"
  then have e: "e \<in> set spaceEncodings" "prefix e s"
    by (simp_all add: spacePrefix_SomeD)
  then have "e \<noteq> []" by (simp add: spaceEncodings_nonempty)
  then have "Suc 0 \<le> length e" by (cases e) simp_all
  moreover from e(2) have "length e \<le> length s" by (rule prefix_length_le)
  ultimately have "length s - length e < length s" by linarith
  then show "(drop (length e) s, s) \<in> measure length" by simp
qed

text \<open>\<^verbatim>\<open>TrimRightFunc(s, unicode.IsSpace)\<close>: drop white-space runes from the back.\<close>

function trimRightSpace :: "string \<Rightarrow> string" where
  "trimRightSpace s =
     (case spaceSuffix s of
        None \<Rightarrow> s
      | Some e \<Rightarrow> trimRightSpace (take (length s - length e) s))"
  by pat_completeness auto
termination
proof (relation "measure length")
  show "wf (measure length)" by simp
next
  fix s e
  assume "spaceSuffix s = Some e"
  then have e: "e \<in> set spaceEncodings" "suffix e s"
    by (simp_all add: spaceSuffix_SomeD)
  then have "e \<noteq> []" by (simp add: spaceEncodings_nonempty)
  then have "Suc 0 \<le> length e" by (cases e) simp_all
  moreover from e(2) have "length e \<le> length s" by (rule suffix_length_le)
  ultimately have "length s - length e < length s" "length s - length e \<le> length s"
    by linarith+
  then show "(take (length s - length e) s, s) \<in> measure length" by simp
qed

declare trimLeftSpace.simps [simp del] trimRightSpace.simps [simp del]

text \<open>\<^verbatim>\<open>TrimSpace\<close> trims the front first, then the back of what is left.\<close>

definition TrimSpace :: "string \<Rightarrow> string" where
  "TrimSpace s = trimRightSpace (trimLeftSpace s)"

subsection \<open>strings.Split, strings.SplitN, strings.Contains\<close>

text \<open>
  \<^verbatim>\<open>Split(s, sep)\<close> for a one-byte separator: cut at every occurrence of the
  separator; a string with n separators gives n + 1 pieces (the empty string gives one
  empty piece).
\<close>

function Split :: "string \<Rightarrow> char \<Rightarrow> string list" where
  "Split s sep =
     (case dropWhile (\<lambda>c. c \<noteq> sep) s of
        [] \<Rightarrow> [s]
      | _ # rest \<Rightarrow> takeWhile (\<lambda>c. c \<noteq> sep) s # Split rest sep)"
  by pat_completeness auto
termination
proof (relation "measure (\<lambda>(s, sep). length s)")
  show "wf (measure (\<lambda>(s, sep). length s))" by simp
next
  fix s :: string and sep x rest
  assume "dropWhile (\<lambda>c. c \<noteq> sep) s = x # rest"
  then have "length s = length (takeWhile (\<lambda>c. c \<noteq> sep) s) + Suc (length rest)"
    by (metis length_append length_Cons takeWhile_dropWhile_id)
  then show "((rest, sep), (s, sep)) \<in> measure (\<lambda>(s, sep). length s)" by simp
qed

declare Split.simps [simp del]

text \<open>\<^verbatim>\<open>SplitN(s, sep, 2)\<close>: cut at the first occurrence of the separator only.\<close>

definition SplitN2 :: "string \<Rightarrow> char \<Rightarrow> string list" where
  "SplitN2 s sep =
     (case dropWhile (\<lambda>c. c \<noteq> sep) s of
        [] \<Rightarrow> [s]
      | _ # rest \<Rightarrow> [takeWhile (\<lambda>c. c \<noteq> sep) s, rest])"

text \<open>\<^verbatim>\<open>Contains(s, sep)\<close> for a one-byte separator.\<close>

definition Contains :: "string \<Rightarrow> char \<Rightarrow> bool" where
  "Contains s sep = (sep \<in> set s)"

subsection \<open>strconv.Atoi\<close>

text \<open>
  \<^verbatim>\<open>Atoi(s)\<close> is \<^verbatim>\<open>ParseInt(s, 10, 0)\<close> converted to \<^verbatim>\<open>int\<close>: an optional
  sign, then one or more decimal digits, the value within the range of \<^verbatim>\<open>int\<close>
  (64 bits here). The error is \<^verbatim>\<open>ErrSyntax\<close> or \<^verbatim>\<open>ErrRange\<close>. (The fast path
  of \<^verbatim>\<open>Atoi\<close> for short strings computes the same result.)
\<close>

datatype numError = ErrSyntax | ErrRange

definition IntSize :: nat where
  "IntSize = 64"

definition isDigit :: "char \<Rightarrow> bool" where
  "isDigit c = (48 \<le> (of_char c :: nat) \<and> (of_char c :: nat) \<le> 57)"

definition digitVal :: "char \<Rightarrow> nat" where
  "digitVal c = of_char c - 48"

text \<open>The digit loop of \<^verbatim>\<open>ParseUint\<close> in base 10, with its overflow checks.\<close>

fun parseUintLoop :: "nat \<Rightarrow> string \<Rightarrow> numError + nat" where
  "parseUintLoop n [] = Inr n"
| "parseUintLoop n (c # cs) =
     (if \<not> isDigit c then Inl ErrSyntax
      else if n * 10 + digitVal c > 2 ^ IntSize - 1 then Inl ErrRange
      else parseUintLoop (n * 10 + digitVal c) cs)"

definition ParseUint :: "string \<Rightarrow> numError + nat" where
  "ParseUint s = (if s = [] then Inl ErrSyntax else parseUintLoop 0 s)"

definition ParseInt :: "string \<Rightarrow> numError + int" where
  "ParseInt s =
     (if s = [] then Inl ErrSyntax
      else
        let neg = (hd s = CHR ''-'');
            s1 = (if hd s = CHR ''+'' \<or> hd s = CHR ''-'' then tl s else s)
        in case ParseUint s1 of
             Inl e \<Rightarrow> Inl e
           | Inr un \<Rightarrow>
               if \<not> neg \<and> un \<ge> 2 ^ (IntSize - 1) then Inl ErrRange
               else if neg \<and> un > 2 ^ (IntSize - 1) then Inl ErrRange
               else Inr (if neg then - int un else int un))"

definition Atoi :: "string \<Rightarrow> numError + int" where
  "Atoi s = ParseInt s"

section \<open>The port specification parser\<close>

text \<open>
  The errors of the parser, one constructor for each \<^verbatim>\<open>fmt.Errorf\<close> of the source;
  an error that wraps another one (\<^verbatim>\<open>%w\<close>) carries it.
\<close>

datatype error =
    EmptyPortToken
  | InvalidPort string
  | PortOutOfRange int
  | EmptyRangeToken
  | InvalidRangeNeedAB string
  | InvalidRangeBounds string
  | InvalidLeftBound string error
  | InvalidRightBound string error
  | RangeStartGtEnd string
  | EmptyPortsSpec
  | EmptyTokenAt nat
  | InvalidRangeToken string error
  | InvalidPortToken string error

definition parseSinglePort :: "string \<Rightarrow> error + int" where
  "parseSinglePort token0 =
     (let token = TrimSpace token0 in
      if token = [] then Inl EmptyPortToken
      else case Atoi token of
             Inl _ \<Rightarrow> Inl (InvalidPort token)
           | Inr n \<Rightarrow>
               if n \<ge> 1 \<and> n \<le> 65535 then Inr n
               else Inl (PortOutOfRange n))"

definition parsePortRange :: "string \<Rightarrow> error + (int \<times> int)" where
  "parsePortRange token0 =
     (let token = TrimSpace token0 in
      if token = [] then Inl EmptyRangeToken
      else case SplitN2 token (CHR ''-'') of
             [p0, p1] \<Rightarrow>
               (let left = TrimSpace p0; right = TrimSpace p1 in
                if left = [] \<or> right = [] then Inl (InvalidRangeBounds token)
                else case parseSinglePort left of
                       Inl e \<Rightarrow> Inl (InvalidLeftBound left e)
                     | Inr start \<Rightarrow>
                         (case parseSinglePort right of
                            Inl e \<Rightarrow> Inl (InvalidRightBound right e)
                          | Inr end \<Rightarrow>
                              if start > end then Inl (RangeStartGtEnd token)
                              else Inr (start, end)))
           | _ \<Rightarrow> Inl (InvalidRangeNeedAB token))"

text \<open>
  The loop over the tokens of \<^verbatim>\<open>expandPortSpec\<close>: \<open>i\<close> is the position of the
  next token, \<open>singles\<close> and \<open>ranges\<close> are the slices appended to so far. The first token
  that fails ends the loop with its error.
\<close>

fun expandTokens ::
  "nat \<Rightarrow> string list \<Rightarrow> int list \<Rightarrow> (int \<times> int) list \<Rightarrow> error + (int list \<times> (int \<times> int) list)"
where
  "expandTokens i [] singles ranges = Inr (singles, ranges)"
| "expandTokens i (tok0 # toks) singles ranges =
     (let tok = TrimSpace tok0 in
      if tok = [] then Inl (EmptyTokenAt i)
      else if Contains tok (CHR ''-'') then
        (case parsePortRange tok of
           Inl e \<Rightarrow> Inl (InvalidRangeToken tok e)
         | Inr (start, end) \<Rightarrow> expandTokens (Suc i) toks singles (ranges @ [(start, end)]))
      else
        (case parseSinglePort tok of
           Inl e \<Rightarrow> Inl (InvalidPortToken tok e)
         | Inr n \<Rightarrow> expandTokens (Suc i) toks (singles @ [n]) ranges))"

text \<open>
  \<^verbatim>\<open>seen\<close> is a \<^verbatim>\<open>map[int]struct{}\<close>, that is, a set of integers. The first
  loop inserts every single port, the second every \<open>p\<close> from \<open>start\<close> to \<open>end\<close> of every
  range.
\<close>

definition seenSingles :: "int list \<Rightarrow> int set" where
  "seenSingles singles = fold insert singles {}"

definition seenRanges :: "(int \<times> int) list \<Rightarrow> int set \<Rightarrow> int set" where
  "seenRanges ranges seen = fold (\<lambda>(start, end) seen. fold insert [start..end] seen) ranges seen"

text \<open>
  The keys of the map are appended to \<^verbatim>\<open>ports\<close> in the unspecified order of a Go
  map iteration and \<^verbatim>\<open>sort.Ints\<close> sorts them: whatever the order of the iteration, the
  result is the ascending list of the keys (lemma \<open>sort_keys_any_order\<close> below).
\<close>

definition expandPortSpec :: "string \<Rightarrow> error + int list" where
  "expandPortSpec spec0 =
     (let spec = TrimSpace spec0 in
      if spec = [] then Inl EmptyPortsSpec
      else case expandTokens 0 (Split spec (CHR '','')) [] [] of
             Inl e \<Rightarrow> Inl e
           | Inr (singles, ranges) \<Rightarrow>
               Inr (sorted_list_of_set (seenRanges ranges (seenSingles singles))))"

subsection \<open>strconv.Itoa, strings.Join\<close>

text \<open>
  \<^verbatim>\<open>Itoa(n)\<close> is the decimal representation of \<open>n\<close>: no leading zeros, a minus sign
  for a negative number. \<^verbatim>\<open>scanPort\<close> formats the port with it.
\<close>

definition digitChar :: "nat \<Rightarrow> char" where
  "digitChar d = char_of (48 + d)"

fun formatDigits :: "nat \<Rightarrow> string" where
  "formatDigits n =
     (if n < 10 then [digitChar n] else formatDigits (n div 10) @ [digitChar (n mod 10)])"

declare formatDigits.simps [simp del]

definition Itoa :: "int \<Rightarrow> string" where
  "Itoa n = (if n < 0 then CHR ''-'' # formatDigits (nat (- n)) else formatDigits (nat n))"

text \<open>\<^verbatim>\<open>Join(elems, sep)\<close>: the elements with the separator between them.\<close>

fun Join :: "string list \<Rightarrow> string \<Rightarrow> string" where
  "Join [] sep = []"
| "Join [x] sep = x"
| "Join (x # y # ys) sep = x @ sep @ Join (y # ys) sep"

text \<open>
  The canonical rendering of a port list that the specification speaks of
  ("the stringified canonical form of an already-expanded set"): the decimal port numbers
  joined by commas. It follows the words of the specification; the program itself never
  prints a port list in this form.
\<close>

definition renderPorts :: "int list \<Rightarrow> string" where
  "renderPorts ps = Join (map Itoa ps) '',''"

section \<open>The scan engine\<close>

text \<open>
  \<^verbatim>\<open>main\<close> starts one goroutine that sends every port of \<open>plan\<close> into the channel
  \<^verbatim>\<open>ports\<close> (capacity \<open>workers\<close>) and closes it, \<open>workers\<close> goroutines running
  \<^verbatim>\<open>worker\<close>, and one goroutine that closes \<^verbatim>\<open>results\<close> (capacity \<open>resbuf\<close>)
  once every worker has returned; \<^verbatim>\<open>main\<close> itself receives from \<^verbatim>\<open>results\<close>
  until it is closed and drained, appends every port received to \<^verbatim>\<open>openPorts\<close>, and
  sorts. The goroutines share the two channels only, and a channel operation is atomic, so a
  run of the program is an interleaving of the following events. The outcome of
  \<^verbatim>\<open>scanPort\<close> depends on the network and is part of the event.
\<close>

datatype workerState =
    Waiting         \<comment> \<open>at \<^verbatim>\<open>for p := range ports\<close>\<close>
  | Probing int     \<comment> \<open>received \<open>p\<close>, inside \<^verbatim>\<open>scanPort(host, p, timeout)\<close>\<close>
  | Publishing int  \<comment> \<open>\<^verbatim>\<open>scanPort\<close> returned true, at \<^verbatim>\<open>results <- p\<close>\<close>
  | Done            \<comment> \<open>the loop has ended, \<^verbatim>\<open>wg.Done()\<close> has run\<close>

record scanState =
  feeder :: "int list"          \<comment> \<open>the ports of \<open>plan\<close> not yet sent\<close>
  ports :: "int list"           \<comment> \<open>the buffer of the channel \<^verbatim>\<open>ports\<close>\<close>
  portsClosed :: bool
  workerStates :: "workerState list"
  results :: "int list"         \<comment> \<open>the buffer of the channel \<^verbatim>\<open>results\<close>\<close>
  resultsClosed :: bool
  openPorts :: "int list"
  finished :: bool              \<comment> \<open>\<^verbatim>\<open>main\<close> has left its receive loop and sorted\<close>

datatype event =
    Feed                  \<comment> \<open>\<^verbatim>\<open>ports <- p\<close>\<close>
  | ClosePorts            \<comment> \<open>\<^verbatim>\<open>close(ports)\<close>\<close>
  | Receive nat           \<comment> \<open>worker \<open>i\<close> receives a port, or finds the channel closed and empty\<close>
  | ProbeResult nat bool  \<comment> \<open>\<^verbatim>\<open>scanPort\<close> returns in worker \<open>i\<close>\<close>
  | Publish nat           \<comment> \<open>\<^verbatim>\<open>results <- p\<close> in worker \<open>i\<close>\<close>
  | CloseResults          \<comment> \<open>\<^verbatim>\<open>wg.Wait(); close(results)\<close>\<close>
  | Drain                 \<comment> \<open>\<^verbatim>\<open>main\<close> receives a port and appends it\<close>
  | Finish                \<comment> \<open>\<^verbatim>\<open>main\<close> finds \<^verbatim>\<open>results\<close> closed and empty; \<^verbatim>\<open>sort.Ints\<close>\<close>

definition initState :: "nat \<Rightarrow> int list \<Rightarrow> scanState" where
  "initState workers plan =
     \<lparr>feeder = plan, ports = [], portsClosed = False,
      workerStates = replicate workers Waiting,
      results = [], resultsClosed = False, openPorts = [], finished = False\<rparr>"

text \<open>One event; \<open>None\<close> when the event cannot happen in the state (the goroutine blocks).\<close>

fun scanStep :: "nat \<Rightarrow> nat \<Rightarrow> event \<Rightarrow> scanState \<Rightarrow> scanState option" where
  "scanStep workers resbuf Feed s =
     (case feeder s of
        [] \<Rightarrow> None
      | p # rest \<Rightarrow>
          if length (ports s) < workers
          then Some (s\<lparr>feeder := rest, ports := ports s @ [p]\<rparr>)
          else None)"
| "scanStep workers resbuf ClosePorts s =
     (if feeder s = [] \<and> \<not> portsClosed s then Some (s\<lparr>portsClosed := True\<rparr>) else None)"
| "scanStep workers resbuf (Receive i) s =
     (if i < length (workerStates s) \<and> workerStates s ! i = Waiting then
        (case ports s of
           p # rest \<Rightarrow>
             Some (s\<lparr>ports := rest, workerStates := (workerStates s)[i := Probing p]\<rparr>)
         | [] \<Rightarrow>
             if portsClosed s
             then Some (s\<lparr>workerStates := (workerStates s)[i := Done]\<rparr>)
             else None)
      else None)"
| "scanStep workers resbuf (ProbeResult i ok) s =
     (if i < length (workerStates s) then
        (case workerStates s ! i of
           Probing p \<Rightarrow>
             Some (s\<lparr>workerStates :=
                      (workerStates s)[i := (if ok then Publishing p else Waiting)]\<rparr>)
         | _ \<Rightarrow> None)
      else None)"
| "scanStep workers resbuf (Publish i) s =
     (if i < length (workerStates s) then
        (case workerStates s ! i of
           Publishing p \<Rightarrow>
             if length (results s) < resbuf
             then Some (s\<lparr>results := results s @ [p],
                          workerStates := (workerStates s)[i := Waiting]\<rparr>)
             else None
         | _ \<Rightarrow> None)
      else None)"
| "scanStep workers resbuf CloseResults s =
     (if list_all (\<lambda>w. w = Done) (workerStates s) \<and> \<not> resultsClosed s
      then Some (s\<lparr>resultsClosed := True\<rparr>)
      else None)"
| "scanStep workers resbuf Drain s =
     (if finished s then None
      else case results s of
             [] \<Rightarrow> None
           | p # rest \<Rightarrow> Some (s\<lparr>results := rest, openPorts := openPorts s @ [p]\<rparr>))"
| "scanStep workers resbuf Finish s =
     (if \<not> finished s \<and> results s = [] \<and> resultsClosed s
      then Some (s\<lparr>openPorts := sort (openPorts s), finished := True\<rparr>)
      else None)"

text \<open>A run: the events of a schedule, one after the other.\<close>

fun run :: "nat \<Rightarrow> nat \<Rightarrow> event list \<Rightarrow> scanState \<Rightarrow> scanState option" where
  "run workers resbuf [] s = Some s"
| "run workers resbuf (ev # evs) s =
     (case scanStep workers resbuf ev s of
        None \<Rightarrow> None
      | Some s' \<Rightarrow> run workers resbuf evs s')"

definition scan :: "nat \<Rightarrow> nat \<Rightarrow> int list \<Rightarrow> event list \<Rightarrow> scanState option" where
  "scan workers resbuf plan schedule = run workers resbuf schedule (initState workers plan)"

section \<open>Auxiliary notions of the proofs\<close>

text \<open>A byte that occurs in no encoding of a white-space rune.\<close>

definition plain :: "char \<Rightarrow> bool" where
  "plain c = (\<forall>e\<in>set spaceEncodings. c \<notin> set e)"

text \<open>
  What one token of the specification adds to \<^verbatim>\<open>seen\<close>, following one iteration of
  the loop of \<^verbatim>\<open>expandPortSpec\<close>; \<open>None\<close> when the iteration returns an error.
\<close>

definition tokenPorts :: "string \<Rightarrow> int set option" where
  "tokenPorts tok0 =
     (let tok = TrimSpace tok0 in
      if tok = [] then None
      else if Contains tok (CHR ''-'') then
        (case parsePortRange tok of Inl _ \<Rightarrow> None | Inr (start, end) \<Rightarrow> Some {start..end})
      else
        (case parseSinglePort tok of Inl _ \<Rightarrow> None | Inr n \<Rightarrow> Some {n}))"

definition rangesSet :: "(int \<times> int) list \<Rightarrow> int set" where
  "rangesSet ranges = (\<Union>(start, end)\<in>set ranges. {start..end})"

definition portsOf :: "string list \<Rightarrow> int set" where
  "portsOf toks = (\<Union>t\<in>set toks. the (tokenPorts t))"

text \<open>The ports a worker holds, and the invariant of the scan engine.\<close>

definition held :: "workerState list \<Rightarrow> int set" where
  "held ws = {p. Probing p \<in> set ws \<or> Publishing p \<in> set ws}"

definition scanInv :: "int list \<Rightarrow> scanState \<Rightarrow> bool" where
  "scanInv plan s \<longleftrightarrow>
     set (feeder s) \<union> set (ports s) \<union> held (workerStates s) \<union> set (results s)
       \<union> set (openPorts s) \<subseteq> set plan \<and>
     (finished s \<longrightarrow> sorted (openPorts s))"

section \<open>Properties\<close>

lemma sort_keys_any_order:
  "distinct ks \<Longrightarrow> set ks = seen \<Longrightarrow> sort ks = sorted_list_of_set seen"
  by (metis sorted_list_of_set_sort_remdups distinct_remdups_id)

subsection \<open>White space\<close>

lemma enc_prefix_free:
  "\<forall>e\<in>set spaceEncodings. \<forall>f\<in>set spaceEncodings. prefix f e \<longrightarrow> f = e"
  by (simp add: spaceEncodings_def)

lemma enc_suffix_free:
  "\<forall>e\<in>set spaceEncodings. \<forall>f\<in>set spaceEncodings. suffix f e \<longrightarrow> f = e"
  by (simp add: spaceEncodings_def suffix_Cons)

lemma enc_lead_not_inner:
  "\<forall>e\<in>set spaceEncodings. \<forall>f\<in>set spaceEncodings. hd f \<notin> set (tl e)"
  by (simp add: spaceEncodings_def)

lemma spacePrefix_None_iff:
  "spacePrefix s = None \<longleftrightarrow> (\<forall>e\<in>set spaceEncodings. \<not> prefix e s)"
  by (auto simp: spacePrefix_def find_None_iff)

lemma spaceSuffix_None_iff:
  "spaceSuffix s = None \<longleftrightarrow> (\<forall>e\<in>set spaceEncodings. \<not> suffix e s)"
  by (auto simp: spaceSuffix_def find_None_iff)

lemma spacePrefix_enc_append:
  assumes "e \<in> set spaceEncodings"
  shows "spacePrefix (e @ s) = Some e"
proof (cases "spacePrefix (e @ s)")
  case None
  with assms have False by (auto simp: spacePrefix_None_iff)
  then show ?thesis ..
next
  case (Some f)
  then have f: "f \<in> set spaceEncodings" "prefix f (e @ s)"
    by (simp_all add: spacePrefix_SomeD)
  have "prefix e (e @ s)" by simp
  with f(2) have "prefix f e \<or> prefix e f" by (rule prefix_same_cases)
  with f(1) assms enc_prefix_free have "f = e" by blast
  with Some show ?thesis by simp
qed

lemma spaceSuffix_append_enc:
  assumes "e \<in> set spaceEncodings"
  shows "spaceSuffix (s @ e) = Some e"
proof (cases "spaceSuffix (s @ e)")
  case None
  with assms have False by (auto simp: spaceSuffix_None_iff suffix_def)
  then show ?thesis ..
next
  case (Some f)
  then have f: "f \<in> set spaceEncodings" "suffix f (s @ e)"
    by (simp_all add: spaceSuffix_SomeD)
  have "suffix e (s @ e)" by (simp add: suffix_def)
  with f(2) have "suffix f e \<or> suffix e f" by (rule suffix_same_cases)
  with f(1) assms enc_suffix_free have "f = e" by blast
  with Some show ?thesis by simp
qed

lemma trimLeftSpace_enc_append:
  "e \<in> set spaceEncodings \<Longrightarrow> trimLeftSpace (e @ s) = trimLeftSpace s"
  by (subst trimLeftSpace.simps) (simp add: spacePrefix_enc_append)

lemma trimRightSpace_append_enc:
  "e \<in> set spaceEncodings \<Longrightarrow> trimRightSpace (s @ e) = trimRightSpace s"
  by (subst trimRightSpace.simps) (simp add: spaceSuffix_append_enc)

lemma trimLeftSpace_id: "spacePrefix s = None \<Longrightarrow> trimLeftSpace s = s"
  by (subst trimLeftSpace.simps) simp

lemma trimRightSpace_id: "spaceSuffix s = None \<Longrightarrow> trimRightSpace s = s"
  by (subst trimRightSpace.simps) simp

lemma trimLeftSpace_Nil [simp]: "trimLeftSpace [] = []"
  by (rule trimLeftSpace_id) (simp add: spacePrefix_None_iff spaceEncodings_nonempty)

lemma trimRightSpace_Nil [simp]: "trimRightSpace [] = []"
  by (rule trimRightSpace_id) (simp add: spaceSuffix_None_iff spaceEncodings_nonempty)

lemma TrimSpace_Nil [simp]: "TrimSpace [] = []"
  by (simp add: TrimSpace_def)

lemma spacePrefix_cases:
  obtains (none) "spacePrefix s = None"
  | (some) e u where "e \<in> set spaceEncodings" "s = e @ u"
proof (cases "spacePrefix s")
  case None then show ?thesis by (rule none)
next
  case (Some e)
  then have "e \<in> set spaceEncodings" "prefix e s" by (simp_all add: spacePrefix_SomeD)
  then show ?thesis by (auto elim!: prefixE intro: some)
qed

lemma spaceSuffix_cases:
  obtains (none) "spaceSuffix s = None"
  | (some) e u where "e \<in> set spaceEncodings" "s = u @ e"
proof (cases "spaceSuffix s")
  case None then show ?thesis by (rule none)
next
  case (Some e)
  then have "e \<in> set spaceEncodings" "suffix e s" by (simp_all add: spaceSuffix_SomeD)
  then show ?thesis by (auto elim!: suffixE intro: some)
qed

lemma suffix_trimLeftSpace: "suffix (trimLeftSpace s) s"
proof (induction s rule: length_induct)
  case (1 s)
  show ?case
  proof (cases s rule: spacePrefix_cases)
    case none then show ?thesis by (simp add: trimLeftSpace_id)
  next
    case (some e u)
    then have "length u < length s" using spaceEncodings_nonempty by fastforce
    with 1 have "suffix (trimLeftSpace u) u" by blast
    with some show ?thesis by (simp add: trimLeftSpace_enc_append suffix_append)
  qed
qed

lemma prefix_trimRightSpace: "prefix (trimRightSpace s) s"
proof (induction s rule: length_induct)
  case (1 s)
  show ?case
  proof (cases s rule: spaceSuffix_cases)
    case none then show ?thesis by (simp add: trimRightSpace_id)
  next
    case (some e u)
    then have "length u < length s" using spaceEncodings_nonempty by fastforce
    with 1 have "prefix (trimRightSpace u) u" by blast
    with some show ?thesis by (simp add: trimRightSpace_append_enc prefix_prefix)
  qed
qed

lemma spacePrefix_trimLeftSpace: "spacePrefix (trimLeftSpace s) = None"
proof (induction s rule: length_induct)
  case (1 s)
  show ?case
  proof (cases s rule: spacePrefix_cases)
    case none then show ?thesis by (simp add: trimLeftSpace_id)
  next
    case (some e u)
    then have "length u < length s" using spaceEncodings_nonempty by fastforce
    with 1 have "spacePrefix (trimLeftSpace u) = None" by blast
    with some show ?thesis by (simp add: trimLeftSpace_enc_append)
  qed
qed

lemma spaceSuffix_trimRightSpace: "spaceSuffix (trimRightSpace s) = None"
proof (induction s rule: length_induct)
  case (1 s)
  show ?case
  proof (cases s rule: spaceSuffix_cases)
    case none then show ?thesis by (simp add: trimRightSpace_id)
  next
    case (some e u)
    then have "length u < length s" using spaceEncodings_nonempty by fastforce
    with 1 have "spaceSuffix (trimRightSpace u) = None" by blast
    with some show ?thesis by (simp add: trimRightSpace_append_enc)
  qed
qed

text \<open>Two encodings inside one string are the same occurrence or do not overlap.\<close>

lemma enc_no_overlap:
  assumes e: "e \<in> set spaceEncodings" and f: "f \<in> set spaceEncodings"
    and eq: "e @ u = v @ f"
  shows "(v = [] \<and> u = [] \<and> e = f) \<or> (\<exists>w. v = e @ w \<and> u = w @ f)"
proof -
  from eq consider (a) w where "e = v @ w" "f = w @ u" | (b) w where "e @ w = v" "u = w @ f"
    by (auto simp: append_eq_append_conv2)
  then show ?thesis
  proof cases
    case b then show ?thesis by auto
  next
    case a
    show ?thesis
    proof (cases v)
      case Nil
      with a have "prefix e f" by simp
      with e f enc_prefix_free have "e = f" by blast
      with a Nil show ?thesis by simp
    next
      case (Cons x v')
      show ?thesis
      proof (cases w)
        case Nil
        with a show ?thesis by auto
      next
        case (Cons y w')
        with a \<open>v = x # v'\<close> have "hd f \<in> set (tl e)" by simp
        with e f enc_lead_not_inner show ?thesis by blast
      qed
    qed
  qed
qed

lemma trim_commute: "trimLeftSpace (trimRightSpace s) = trimRightSpace (trimLeftSpace s)"
proof (induction s rule: length_induct)
  case (1 s)
  show ?case
  proof (cases s rule: spacePrefix_cases)
    case none
    have "spacePrefix (trimRightSpace s) = None"
      unfolding spacePrefix_None_iff
    proof
      fix e assume "e \<in> set spaceEncodings"
      with none have "\<not> prefix e s" by (simp add: spacePrefix_None_iff)
      then show "\<not> prefix e (trimRightSpace s)"
        using prefix_trimRightSpace [of s] prefix_order.trans by blast
    qed
    with none show ?thesis by (simp add: trimLeftSpace_id)
  next
    case pre: (some e u)
    show ?thesis
    proof (cases s rule: spaceSuffix_cases)
      case none
      have "spaceSuffix (trimLeftSpace s) = None"
        unfolding spaceSuffix_None_iff
      proof
        fix e assume "e \<in> set spaceEncodings"
        with none have "\<not> suffix e s" by (simp add: spaceSuffix_None_iff)
        then show "\<not> suffix e (trimLeftSpace s)"
          using suffix_trimLeftSpace [of s] suffix_order.trans by blast
      qed
      with none show ?thesis by (simp add: trimRightSpace_id)
    next
      case suf: (some f v)
      from pre suf have "e @ u = v @ f" by simp
      with pre(1) suf(1) consider "v = []" "u = []" "e = f" | w where "v = e @ w" "u = w @ f"
        using enc_no_overlap by blast
      then show ?thesis
      proof cases
        case 1
        with pre have "trimLeftSpace s = []" "trimRightSpace s = []"
          using trimLeftSpace_enc_append [of e "[]"] trimRightSpace_append_enc [of e "[]"]
          by simp_all
        then show ?thesis by simp
      next
        case 2
        have ne: "e \<noteq> []" "f \<noteq> []" using pre(1) suf(1) by (simp_all add: spaceEncodings_nonempty)
        have s: "s = e @ w @ f" using pre 2 by simp
        have l1: "length (e @ w) < length s" "length (w @ f) < length s" "length w < length s"
          using ne s by simp_all
        have "trimLeftSpace (trimRightSpace s) = trimLeftSpace (trimRightSpace (e @ w))"
          using s trimRightSpace_append_enc [OF suf(1), of "e @ w"] by simp
        also have "\<dots> = trimRightSpace (trimLeftSpace (e @ w))"
          using 1 l1(1) by blast
        also have "\<dots> = trimRightSpace (trimLeftSpace w)"
          by (simp add: trimLeftSpace_enc_append pre(1))
        also have "\<dots> = trimLeftSpace (trimRightSpace w)"
          using 1 l1(3) by metis
        also have "\<dots> = trimLeftSpace (trimRightSpace (w @ f))"
          by (simp add: trimRightSpace_append_enc suf(1))
        also have "\<dots> = trimRightSpace (trimLeftSpace (w @ f))"
          using 1 l1(2) by blast
        also have "\<dots> = trimRightSpace (trimLeftSpace s)"
          using s trimLeftSpace_enc_append [OF pre(1), of "w @ f"] by simp
        finally show ?thesis .
      qed
    qed
  qed
qed

lemma trimLeftSpace_idem [simp]: "trimLeftSpace (trimLeftSpace s) = trimLeftSpace s"
  by (simp add: trimLeftSpace_id spacePrefix_trimLeftSpace)

lemma trimRightSpace_idem [simp]: "trimRightSpace (trimRightSpace s) = trimRightSpace s"
  by (simp add: trimRightSpace_id spaceSuffix_trimRightSpace)

lemma TrimSpace_trimLeftSpace [simp]: "TrimSpace (trimLeftSpace s) = TrimSpace s"
  by (simp add: TrimSpace_def)

lemma TrimSpace_trimRightSpace [simp]: "TrimSpace (trimRightSpace s) = TrimSpace s"
  by (simp add: TrimSpace_def trim_commute)

lemma TrimSpace_idem [simp]: "TrimSpace (TrimSpace s) = TrimSpace s"
  by (simp add: TrimSpace_def trim_commute)

lemma prefix_enc_sep:
  assumes "plain c" "e \<in> set spaceEncodings" "prefix e (l @ c # r)"
  shows "prefix e l"
proof -
  from assms(3) consider "prefix e l" | us where "e = l @ us" "prefix us (c # r)"
    by (auto simp: prefix_append)
  then show ?thesis
  proof cases
    case 2
    with assms(1,2) have "us = []" by (cases us) (auto simp: plain_def)
    with 2 show ?thesis by simp
  qed
qed

lemma suffix_enc_sep:
  assumes "plain c" "e \<in> set spaceEncodings" "suffix e (l @ c # r)"
  shows "suffix e r"
proof -
  from assms(3) have "suffix e ((l @ [c]) @ r)" by simp
  then consider "suffix e r" | us where "e = us @ r" "suffix us (l @ [c])"
    unfolding suffix_append by blast
  then show ?thesis
  proof cases
    case 2
    with assms(1,2) have "us = []" by (cases us rule: rev_cases) (auto simp: plain_def)
    with 2 show ?thesis by simp
  qed
qed

lemma trimLeftSpace_sep:
  assumes "plain c"
  shows "trimLeftSpace (l @ c # r) = trimLeftSpace l @ c # r"
proof (induction l rule: length_induct)
  case (1 l)
  show ?case
  proof (cases l rule: spacePrefix_cases)
    case none
    have "spacePrefix (l @ c # r) = None"
      unfolding spacePrefix_None_iff
    proof
      fix e assume e: "e \<in> set spaceEncodings"
      with none have "\<not> prefix e l" by (simp add: spacePrefix_None_iff)
      with assms e show "\<not> prefix e (l @ c # r)" using prefix_enc_sep by blast
    qed
    with none show ?thesis by (simp add: trimLeftSpace_id)
  next
    case (some e u)
    then have "length u < length l" using spaceEncodings_nonempty by fastforce
    with 1 have "trimLeftSpace (u @ c # r) = trimLeftSpace u @ c # r" by blast
    with some show ?thesis
      using trimLeftSpace_enc_append [of e "u @ c # r"] trimLeftSpace_enc_append [of e u]
      by simp
  qed
qed

lemma trimRightSpace_sep:
  assumes "plain c"
  shows "trimRightSpace (l @ c # r) = l @ c # trimRightSpace r"
proof (induction r rule: length_induct)
  case (1 r)
  show ?case
  proof (cases r rule: spaceSuffix_cases)
    case none
    have "spaceSuffix (l @ c # r) = None"
      unfolding spaceSuffix_None_iff
    proof
      fix e assume e: "e \<in> set spaceEncodings"
      with none have "\<not> suffix e r" by (simp add: spaceSuffix_None_iff)
      with assms e show "\<not> suffix e (l @ c # r)" using suffix_enc_sep by blast
    qed
    with none show ?thesis by (simp add: trimRightSpace_id)
  next
    case (some e u)
    then have "length u < length r" using spaceEncodings_nonempty by fastforce
    with 1 have "trimRightSpace (l @ c # u) = l @ c # trimRightSpace u" by blast
    with some show ?thesis
      using trimRightSpace_append_enc [of e "l @ c # u"] trimRightSpace_append_enc [of e u]
      by simp
  qed
qed

lemma TrimSpace_sep:
  "plain c \<Longrightarrow> TrimSpace (l @ c # r) = trimLeftSpace l @ c # trimRightSpace r"
  by (simp add: TrimSpace_def trimLeftSpace_sep trimRightSpace_sep)

lemma set_trimLeftSpace: "set (trimLeftSpace s) \<subseteq> set s"
  using suffix_trimLeftSpace [of s] by (rule set_mono_suffix)

lemma set_trimRightSpace: "set (trimRightSpace s) \<subseteq> set s"
  using prefix_trimRightSpace [of s] by (rule set_mono_prefix)

lemma set_TrimSpace: "set (TrimSpace s) \<subseteq> set s"
  unfolding TrimSpace_def using set_trimLeftSpace set_trimRightSpace by blast

lemma plain_in_TrimSpace:
  assumes "plain c"
  shows "c \<in> set (TrimSpace s) \<longleftrightarrow> c \<in> set s"
proof
  assume "c \<in> set (TrimSpace s)" then show "c \<in> set s" using set_TrimSpace by blast
next
  assume "c \<in> set s"
  then obtain l r where "s = l @ c # r" by (auto simp: in_set_conv_decomp)
  with assms show "c \<in> set (TrimSpace s)" by (simp add: TrimSpace_sep)
qed

lemma trimLeftSpace_plain_Cons: "plain c \<Longrightarrow> trimLeftSpace (c # r) = c # r"
  using trimLeftSpace_sep [of c "[]" r] by simp

lemma trimRightSpace_plain_snoc: "plain c \<Longrightarrow> trimRightSpace (l @ [c]) = l @ [c]"
  using trimRightSpace_sep [of c l "[]"] by simp

lemma TrimSpace_plain_ends:
  assumes "s \<noteq> []" "plain (hd s)" "plain (last s)"
  shows "TrimSpace s = s"
proof -
  from assms(1,2) have "trimLeftSpace s = s"
    by (cases s) (simp_all add: trimLeftSpace_plain_Cons)
  moreover from assms(1,3) have "trimRightSpace s = s"
    by (cases s rule: rev_cases) (simp_all add: trimRightSpace_plain_snoc)
  ultimately show ?thesis by (simp add: TrimSpace_def)
qed

subsection \<open>Split\<close>

lemma Split_no_sep: "sep \<notin> set s \<Longrightarrow> Split s sep = [s]"
proof -
  assume "sep \<notin> set s"
  then have d: "dropWhile (\<lambda>c. c \<noteq> sep) s = []" by (auto simp: dropWhile_eq_Nil_conv)
  show ?thesis unfolding Split.simps [of s sep] d by simp
qed

lemma Split_sep: "sep \<notin> set l \<Longrightarrow> Split (l @ sep # r) sep = l # Split r sep"
proof -
  assume a: "sep \<notin> set l"
  then have "dropWhile (\<lambda>c. c \<noteq> sep) (l @ sep # r) = sep # r"
    by (auto simp: dropWhile_append)
  moreover from a have "takeWhile (\<lambda>c. c \<noteq> sep) (l @ sep # r) = l"
    by (auto simp: takeWhile_append)
  ultimately show ?thesis by (subst Split.simps) simp
qed

lemma Split_Nil [simp]: "Split [] sep = [[]]"
  by (simp add: Split_no_sep)

lemma split_at_first:
  assumes "sep \<in> set s"
  obtains l r where "s = l @ sep # r" "sep \<notin> set l"
  using assms split_list_first by metis

lemma Split_cases:
  obtains (single) "sep \<notin> set s" "Split s sep = [s]"
  | (more) l r where "s = l @ sep # r" "sep \<notin> set l" "Split s sep = l # Split r sep"
proof (cases "sep \<in> set s")
  case False then show ?thesis using single Split_no_sep by blast
next
  case True
  then obtain l r where "s = l @ sep # r" "sep \<notin> set l" by (rule split_at_first)
  then show ?thesis using more Split_sep by blast
qed

lemma Split_not_Nil [simp]: "Split s sep \<noteq> []"
  by (cases rule: Split_cases [of sep s]) simp_all

lemma Split_token_no_sep: "t \<in> set (Split s sep) \<Longrightarrow> sep \<notin> set t"
proof (induction s arbitrary: t rule: length_induct)
  case (1 s)
  show ?case
  proof (cases rule: Split_cases [of sep s])
    case single with 1(2) show ?thesis by simp
  next
    case (more l r)
    then have "length r < length s" by simp
    with 1(1) have IH: "\<And>t. t \<in> set (Split r sep) \<Longrightarrow> sep \<notin> set t" by blast
    from 1(2) more have "t = l \<or> t \<in> set (Split r sep)" by simp
    with IH more(2) show ?thesis by blast
  qed
qed

lemma Split_trimRightSpace:
  assumes "plain sep"
  shows "map TrimSpace (Split (trimRightSpace s) sep) = map TrimSpace (Split s sep)"
proof (induction s rule: length_induct)
  case (1 s)
  show ?case
  proof (cases rule: Split_cases [of sep s])
    case single
    then have "sep \<notin> set (trimRightSpace s)" using set_trimRightSpace by blast
    with single show ?thesis by (simp add: Split_no_sep)
  next
    case (more l r)
    then have "length r < length s" by simp
    with 1 have "map TrimSpace (Split (trimRightSpace r) sep) = map TrimSpace (Split r sep)"
      by blast
    with more assms show ?thesis by (simp add: trimRightSpace_sep Split_sep)
  qed
qed

lemma Split_TrimSpace:
  assumes "plain sep"
  shows "map TrimSpace (Split (TrimSpace s) sep) = map TrimSpace (Split s sep)"
proof (cases rule: Split_cases [of sep s])
  case single
  then have "sep \<notin> set (TrimSpace s)" using set_TrimSpace by blast
  with single show ?thesis by (simp add: Split_no_sep)
next
  case (more l r)
  have "sep \<notin> set (trimLeftSpace l)" using more(2) set_trimLeftSpace by blast
  with more assms show ?thesis
    by (simp add: TrimSpace_sep Split_sep Split_trimRightSpace)
qed

lemma plain_comma: "plain (CHR '','')" by (simp add: plain_def spaceEncodings_def)
lemma plain_hyphen: "plain (CHR ''-'')" by (simp add: plain_def spaceEncodings_def)
lemma plain_plus: "plain (CHR ''+'')" by (simp add: plain_def spaceEncodings_def)

lemma plain_digit: "isDigit c \<Longrightarrow> plain c"
  by (auto simp: plain_def spaceEncodings_def isDigit_def)

subsection \<open>The parser, token by token\<close>

lemma fold_insert_set: "fold insert xs A = set xs \<union> A"
  by (induction xs arbitrary: A) auto

lemma seenSingles_eq: "seenSingles singles = set singles"
  by (simp add: seenSingles_def fold_insert_set)

lemma seenRanges_eq: "seenRanges ranges seen = seen \<union> rangesSet ranges"
  unfolding seenRanges_def rangesSet_def
  by (induction ranges arbitrary: seen) (auto simp: fold_insert_set)

lemma rangesSet_snoc: "rangesSet (rs @ [(a, b)]) = rangesSet rs \<union> {a..b}"
  by (auto simp: rangesSet_def)

lemma parseSinglePort_range: "parseSinglePort t = Inr n \<Longrightarrow> 1 \<le> n \<and> n \<le> 65535"
  by (auto simp: parseSinglePort_def Let_def split: if_splits sum.splits)

lemma parsePortRange_range:
  "parsePortRange t = Inr (a, b) \<Longrightarrow> 1 \<le> a \<and> a \<le> b \<and> b \<le> 65535"
  by (auto simp: parsePortRange_def Let_def dest!: parseSinglePort_range
      split: if_splits sum.splits list.splits)

lemma tokenPorts_TrimSpace [simp]: "tokenPorts (TrimSpace t) = tokenPorts t"
  by (simp add: tokenPorts_def)

lemma tokenPorts_Nil [simp]: "tokenPorts [] = None"
  by (simp add: tokenPorts_def)

lemma tokenPorts_Some:
  assumes "tokenPorts t = Some S"
  shows "finite S \<and> S \<noteq> {} \<and> S \<subseteq> {1..65535}"
proof (cases "Contains (TrimSpace t) (CHR ''-'')")
  case True
  with assms obtain a b where "parsePortRange (TrimSpace t) = Inr (a, b)" "S = {a..b}"
    by (auto simp: tokenPorts_def Let_def split: if_splits sum.splits)
  then show ?thesis using parsePortRange_range [of "TrimSpace t" a b] by auto
next
  case False
  with assms obtain n where "parseSinglePort (TrimSpace t) = Inr n" "S = {n}"
    by (auto simp: tokenPorts_def Let_def split: if_splits sum.splits)
  then show ?thesis using parseSinglePort_range [of "TrimSpace t" n] by auto
qed

lemma expandTokens_Inr:
  "expandTokens i toks singles ranges = Inr (singles', ranges') \<Longrightarrow>
     (\<forall>t\<in>set toks. tokenPorts t \<noteq> None) \<and>
     set singles' \<union> rangesSet ranges' = set singles \<union> rangesSet ranges \<union> portsOf toks"
proof (induction toks arbitrary: i singles ranges)
  case Nil
  then show ?case by (simp add: portsOf_def)
next
  case (Cons tok toks)
  let ?t = "TrimSpace tok"
  from Cons.prems have ne: "?t \<noteq> []" by (auto simp: Let_def split: if_splits)
  show ?case
  proof (cases "Contains ?t (CHR ''-'')")
    case True
    with Cons.prems ne obtain a b where
      p: "parsePortRange ?t = Inr (a, b)" and
      r: "expandTokens (Suc i) toks singles (ranges @ [(a, b)]) = Inr (singles', ranges')"
      by (auto simp: Let_def split: sum.splits)
    from p ne True have tp: "tokenPorts tok = Some {a..b}" by (simp add: tokenPorts_def)
    from Cons.IH [OF r] tp show ?thesis
      by (auto simp: portsOf_def rangesSet_snoc)
  next
    case False
    with Cons.prems ne obtain n where
      p: "parseSinglePort ?t = Inr n" and
      r: "expandTokens (Suc i) toks (singles @ [n]) ranges = Inr (singles', ranges')"
      by (auto simp: Let_def split: sum.splits)
    from p ne False have tp: "tokenPorts tok = Some {n}" by (simp add: tokenPorts_def)
    from Cons.IH [OF r] tp show ?thesis
      by (auto simp: portsOf_def)
  qed
qed

lemma expandTokens_Inl:
  "expandTokens i toks singles ranges = Inl e \<Longrightarrow> \<exists>t\<in>set toks. tokenPorts t = None"
proof (induction toks arbitrary: i singles ranges)
  case Nil
  then show ?case by simp
next
  case (Cons tok toks)
  show ?case
  proof (cases "tokenPorts tok")
    case None then show ?thesis by simp
  next
    case (Some S)
    then obtain s r where
      "expandTokens i (tok # toks) singles ranges = expandTokens (Suc i) toks s r"
      by (auto simp: tokenPorts_def Let_def split: if_splits sum.splits)
    with Cons.prems have "expandTokens (Suc i) toks s r = Inl e" by simp
    from Cons.IH [OF this] show ?thesis by simp
  qed
qed

lemma tokenPorts_map_TrimSpace:
  "tokenPorts ` set (map TrimSpace toks) = tokenPorts ` set toks"
  by (auto simp: image_iff)

lemma portsOf_alt: "portsOf toks = (\<Union>S\<in>tokenPorts ` set toks. the S)"
  by (auto simp: portsOf_def)

lemma all_ok_alt: "(\<forall>t\<in>set toks. tokenPorts t \<noteq> None) \<longleftrightarrow> None \<notin> tokenPorts ` set toks"
  by (metis imageE imageI)

lemma tokens_of_TrimSpace:
  "tokenPorts ` set (Split (TrimSpace spec) (CHR '','')) = tokenPorts ` set (Split spec (CHR '',''))"
  using tokenPorts_map_TrimSpace [of "Split (TrimSpace spec) (CHR '','')"]
    tokenPorts_map_TrimSpace [of "Split spec (CHR '','')"]
    Split_TrimSpace [OF plain_comma, of spec]
  by simp

lemma expandPortSpec_Inr_iff:
  "expandPortSpec spec = Inr ps \<longleftrightarrow>
     (\<forall>t\<in>set (Split spec (CHR '','')). tokenPorts t \<noteq> None) \<and>
     ps = sorted_list_of_set (portsOf (Split spec (CHR '','')))"
proof (cases "TrimSpace spec = []")
  case True
  then have "tokenPorts ` set (Split spec (CHR '','')) = {None}"
    using tokens_of_TrimSpace [of spec] by simp
  then have "\<not> (\<forall>t\<in>set (Split spec (CHR '','')). tokenPorts t \<noteq> None)"
    unfolding all_ok_alt by simp
  with True show ?thesis by (simp add: expandPortSpec_def)
next
  case False
  let ?toks = "Split (TrimSpace spec) (CHR '','')"
  have ok: "(\<forall>t\<in>set ?toks. tokenPorts t \<noteq> None) \<longleftrightarrow>
      (\<forall>t\<in>set (Split spec (CHR '','')). tokenPorts t \<noteq> None)"
    unfolding all_ok_alt tokens_of_TrimSpace ..
  have po: "portsOf ?toks = portsOf (Split spec (CHR '',''))"
    unfolding portsOf_alt tokens_of_TrimSpace ..
  show ?thesis
  proof (cases "expandTokens 0 ?toks [] []")
    case (Inl e)
    then have "\<exists>t\<in>set ?toks. tokenPorts t = None" by (rule expandTokens_Inl)
    with ok have "\<not> (\<forall>t\<in>set (Split spec (CHR '','')). tokenPorts t \<noteq> None)" by blast
    with Inl False show ?thesis by (simp add: expandPortSpec_def)
  next
    case (Inr p)
    obtain singles ranges where p: "p = (singles, ranges)" by (cases p)
    from expandTokens_Inr [OF Inr [unfolded p]]
    have "\<forall>t\<in>set ?toks. tokenPorts t \<noteq> None"
      and "set singles \<union> rangesSet ranges = portsOf ?toks"
      by (simp_all add: rangesSet_def)
    with ok po Inr p False show ?thesis
      by (auto simp: expandPortSpec_def seenRanges_eq seenSingles_eq)
  qed
qed

lemma finite_portsOf:
  "\<forall>t\<in>set toks. tokenPorts t \<noteq> None \<Longrightarrow> finite (portsOf toks)"
  unfolding portsOf_def using tokenPorts_Some by fastforce

lemma portsOf_range:
  "\<forall>t\<in>set toks. tokenPorts t \<noteq> None \<Longrightarrow> portsOf toks \<subseteq> {1..65535}"
  unfolding portsOf_def using tokenPorts_Some by fastforce

subsection \<open>More about the parser\<close>


lemma expandPortSpec_Inr_props:
  assumes "expandPortSpec spec = Inr ps"
  shows "finite (portsOf (Split spec (CHR '','')))"
    and "set ps = portsOf (Split spec (CHR '',''))"
    and "set ps \<subseteq> {1..65535}"
    and "ps \<noteq> []"
proof -
  let ?toks = "Split spec (CHR '','')"
  from assms have ok: "\<forall>t\<in>set ?toks. tokenPorts t \<noteq> None"
    and ps: "ps = sorted_list_of_set (portsOf ?toks)"
    by (simp_all add: expandPortSpec_Inr_iff)
  from ok show fin: "finite (portsOf ?toks)" by (rule finite_portsOf)
  with ps show set: "set ps = portsOf ?toks" by simp
  with ok show "set ps \<subseteq> {1..65535}" using portsOf_range by blast
  obtain t where t: "t \<in> set ?toks" using Split_not_Nil [of spec "CHR '',''"]
    by (cases ?toks) auto
  with ok obtain S where "tokenPorts t = Some S" by auto
  with t have "S \<noteq> {}" "S \<subseteq> portsOf ?toks"
    using tokenPorts_Some [of t S] by (auto simp: portsOf_def)
  then have "portsOf ?toks \<noteq> {}" by auto
  with fin ps show "ps \<noteq> []" by (simp add: sorted_list_of_set_eq_Nil_iff)
qed

subsection \<open>Evaluation on concrete specifications\<close>

lemma plain_chars:
  "plain (CHR ''0'')" "plain (CHR ''1'')" "plain (CHR ''2'')" "plain (CHR ''3'')"
  "plain (CHR ''4'')" "plain (CHR ''5'')" "plain (CHR ''6'')" "plain (CHR ''7'')"
  "plain (CHR ''8'')" "plain (CHR ''9'')" "plain (CHR ''+'')" "plain (CHR ''-'')"
  "plain (CHR '','')"
  by (simp_all add: plain_def spaceEncodings_def)

lemma expandPortSpec_eval:
  "expandPortSpec spec0 =
     (let spec = TrimSpace spec0 in
      if spec = [] then Inl EmptyPortsSpec
      else case expandTokens 0 (Split spec (CHR '','')) [] [] of
             Inl e \<Rightarrow> Inl e
           | Inr (singles, ranges) \<Rightarrow>
               Inr (sort (remdups (singles @ concat (map (\<lambda>(start, end). [start..end]) ranges)))))"
proof -
  have *: "sorted_list_of_set (seenRanges ranges (seenSingles singles)) =
      sort (remdups (singles @ concat (map (\<lambda>(start, end). [start..end]) ranges)))"
    for singles ranges
  proof -
    have "seenRanges ranges (seenSingles singles) =
        set (singles @ concat (map (\<lambda>(start, end). [start..end]) ranges))"
      by (auto simp: seenRanges_eq seenSingles_eq rangesSet_def)
    then show ?thesis by (simp only: sorted_list_of_set_sort_remdups)
  qed
  show ?thesis unfolding expandPortSpec_def * by (rule refl)
qed

lemma trimLeftSpace_space: "trimLeftSpace (CHR '' '' # s) = trimLeftSpace s"
  using trimLeftSpace_enc_append [of "'' ''" s] by (simp add: spaceEncodings_def)

lemma trimRightSpace_plain_last:
  "s \<noteq> [] \<Longrightarrow> plain (last s) \<Longrightarrow> trimRightSpace s = s"
  by (cases s rule: rev_cases) (simp_all add: trimRightSpace_plain_snoc)

lemma trimRightSpace_space_last:
  "s \<noteq> [] \<Longrightarrow> last s = CHR '' '' \<Longrightarrow> trimRightSpace s = trimRightSpace (butlast s)"
  using trimRightSpace_append_enc [of "'' ''" "butlast s"]
  by (cases s rule: rev_cases) (simp_all add: spaceEncodings_def)

lemmas eval_simps =
  expandPortSpec_eval TrimSpace_def
  trimLeftSpace_plain_Cons trimLeftSpace_space trimRightSpace_plain_last trimRightSpace_space_last
  plain_chars Split.simps SplitN2_def Contains_def
  parseSinglePort_def parsePortRange_def Atoi_def ParseInt_def ParseUint_def
  isDigit_def digitVal_def IntSize_def upto_rec1 Let_def

subsection \<open>Numbers\<close>

lemma parseUintLoop_digits: "parseUintLoop n s = Inr m \<Longrightarrow> \<forall>c\<in>set s. isDigit c"
  by (induction s arbitrary: n) (auto split: if_splits)

lemma isDigit_not_sep: "isDigit c \<Longrightarrow> c \<noteq> CHR ''-'' \<and> c \<noteq> CHR '','' \<and> c \<noteq> CHR ''+''"
  by (auto simp: isDigit_def)

lemma ParseInt_Inr:
  assumes "ParseInt t = Inr n"
  obtains un where "t \<noteq> []"
    and "ParseUint (if hd t = CHR ''+'' \<or> hd t = CHR ''-'' then tl t else t) = Inr un"
    and "n = (if hd t = CHR ''-'' then - int un else int un)"
proof -
  let ?s1 = "if hd t = CHR ''+'' \<or> hd t = CHR ''-'' then tl t else t"
  from assms have ne: "t \<noteq> []" by (cases "t = []") (simp_all add: ParseInt_def)
  show thesis
  proof (cases "ParseUint ?s1")
    case (Inl e)
    with ne have "ParseInt t = Inl e" by (simp add: ParseInt_def Let_def)
    with assms show ?thesis by simp
  next
    case (Inr un)
    with ne assms have "n = (if hd t = CHR ''-'' then - int un else int un)"
      unfolding ParseInt_def Let_def by (simp split: if_splits)
    with ne Inr show ?thesis by (rule that)
  qed
qed

lemma Atoi_positive_chars:
  assumes "Atoi t = Inr n" "1 \<le> n"
  shows "CHR ''-'' \<notin> set t \<and> CHR '','' \<notin> set t"
proof -
  let ?s1 = "if hd t = CHR ''+'' \<or> hd t = CHR ''-'' then tl t else t"
  from assms(1) have "ParseInt t = Inr n" by (simp add: Atoi_def)
  then obtain un where ne: "t \<noteq> []" and un: "ParseUint ?s1 = Inr un"
    and n: "n = (if hd t = CHR ''-'' then - int un else int un)"
    by (rule ParseInt_Inr)
  from n assms(2) have nneg: "hd t \<noteq> CHR ''-''" by (cases "hd t = CHR ''-''") simp_all
  from un have "parseUintLoop 0 ?s1 = Inr un"
    by (cases "?s1 = []") (simp_all add: ParseUint_def)
  then have "\<forall>c\<in>set ?s1. isDigit c" by (rule parseUintLoop_digits)
  then have d: "\<forall>c\<in>set ?s1. c \<noteq> CHR ''-'' \<and> c \<noteq> CHR '',''"
    using isDigit_not_sep by blast
  from ne obtain x xs where t: "t = x # xs" by (cases t) auto
  show ?thesis
  proof (cases "x = CHR ''+''")
    case True
    with t have "?s1 = xs" by simp
    with d have "\<forall>c\<in>set xs. c \<noteq> CHR ''-'' \<and> c \<noteq> CHR '',''" by simp
    moreover from True have "x \<noteq> CHR ''-''" "x \<noteq> CHR '',''" by simp_all
    ultimately show ?thesis unfolding t by auto
  next
    case False
    from nneg t have "x \<noteq> CHR ''-''" by simp
    with False t have "?s1 = t" by simp
    with d have "\<forall>c\<in>set t. c \<noteq> CHR ''-'' \<and> c \<noteq> CHR '',''" by simp
    then show ?thesis by blast
  qed
qed

lemma parseSinglePort_Inr:
  "parseSinglePort v = Inr n \<Longrightarrow> Atoi (TrimSpace v) = Inr n \<and> 1 \<le> n \<and> n \<le> 65535"
  by (auto simp: parseSinglePort_def Let_def split: if_splits sum.splits)

lemma parseSinglePort_chars:
  assumes "parseSinglePort t = Inr n"
  shows "CHR ''-'' \<notin> set t" and "CHR '','' \<notin> set t" and "TrimSpace t \<noteq> []"
proof -
  from assms have a: "Atoi (TrimSpace t) = Inr n" "1 \<le> n"
    by (simp_all add: parseSinglePort_Inr)
  then have "CHR ''-'' \<notin> set (TrimSpace t) \<and> CHR '','' \<notin> set (TrimSpace t)"
    by (rule Atoi_positive_chars)
  then show "CHR ''-'' \<notin> set t" and "CHR '','' \<notin> set t"
    using plain_in_TrimSpace [OF plain_hyphen] plain_in_TrimSpace [OF plain_comma] by blast+
  from assms show "TrimSpace t \<noteq> []"
    by (auto simp: parseSinglePort_def Let_def split: if_splits)
qed

lemma parseSinglePort_TrimSpace [simp]: "parseSinglePort (TrimSpace t) = parseSinglePort t"
  by (simp add: parseSinglePort_def)

lemma parsePortRange_TrimSpace [simp]: "parsePortRange (TrimSpace t) = parsePortRange t"
  by (simp add: parsePortRange_def)

subsection \<open>Range tokens\<close>

lemma SplitN2_sep: "sep \<notin> set l \<Longrightarrow> SplitN2 (l @ sep # r) sep = [l, r]"
proof -
  assume a: "sep \<notin> set l"
  then have "dropWhile (\<lambda>c. c \<noteq> sep) (l @ sep # r) = sep # r"
    by (auto simp: dropWhile_append)
  moreover from a have "takeWhile (\<lambda>c. c \<noteq> sep) (l @ sep # r) = l"
    by (auto simp: takeWhile_append)
  ultimately show ?thesis by (simp add: SplitN2_def)
qed

lemma parsePortRange_split:
  assumes "CHR ''-'' \<notin> set l"
  shows "parsePortRange (l @ CHR ''-'' # r) =
     (if TrimSpace l = [] \<or> TrimSpace r = []
      then Inl (InvalidRangeBounds (TrimSpace (l @ CHR ''-'' # r)))
      else case parseSinglePort l of
             Inl e \<Rightarrow> Inl (InvalidLeftBound (TrimSpace l) e)
           | Inr start \<Rightarrow>
               (case parseSinglePort r of
                  Inl e \<Rightarrow> Inl (InvalidRightBound (TrimSpace r) e)
                | Inr end \<Rightarrow>
                    if start > end then Inl (RangeStartGtEnd (TrimSpace (l @ CHR ''-'' # r)))
                    else Inr (start, end)))"
proof -
  have t: "TrimSpace (l @ CHR ''-'' # r) = trimLeftSpace l @ CHR ''-'' # trimRightSpace r"
    using plain_hyphen by (rule TrimSpace_sep)
  have "CHR ''-'' \<notin> set (trimLeftSpace l)" using assms set_trimLeftSpace by blast
  then have s: "SplitN2 (trimLeftSpace l @ CHR ''-'' # trimRightSpace r) (CHR ''-'') =
      [trimLeftSpace l, trimRightSpace r]"
    by (rule SplitN2_sep)
  have p: "parseSinglePort (trimLeftSpace l) = parseSinglePort l"
    "parseSinglePort (trimRightSpace r) = parseSinglePort r"
    by (simp_all add: parseSinglePort_def)
  show ?thesis
    by (simp add: parsePortRange_def t s Let_def split: sum.splits)
qed

lemma tokenPorts_range:
  assumes "CHR ''-'' \<notin> set l"
  shows "tokenPorts (l @ CHR ''-'' # r) =
     (case parsePortRange (l @ CHR ''-'' # r) of
        Inl _ \<Rightarrow> None | Inr (start, end) \<Rightarrow> Some {start..end})"
proof -
  let ?x = "l @ CHR ''-'' # r"
  have "TrimSpace ?x = trimLeftSpace l @ CHR ''-'' # trimRightSpace r"
    using plain_hyphen by (rule TrimSpace_sep)
  then have "TrimSpace ?x \<noteq> []" "Contains (TrimSpace ?x) (CHR ''-'')"
    by (simp_all add: Contains_def)
  then show ?thesis by (simp add: tokenPorts_def)
qed

lemma tokenPorts_single:
  assumes "CHR ''-'' \<notin> set tok"
  shows "tokenPorts tok =
     (if TrimSpace tok = [] then None
      else case parseSinglePort tok of Inl _ \<Rightarrow> None | Inr n \<Rightarrow> Some {n})"
proof -
  from assms have "CHR ''-'' \<notin> set (TrimSpace tok)" using set_TrimSpace by blast
  then show ?thesis by (simp add: tokenPorts_def Contains_def)
qed

lemma tokenPorts_blank: "TrimSpace tok = [] \<Longrightarrow> tokenPorts tok = None"
  by (simp add: tokenPorts_def)

lemma tokenPorts_second_hyphen:
  assumes "CHR ''-'' \<notin> set l" "CHR ''-'' \<in> set r"
  shows "tokenPorts (l @ CHR ''-'' # r) = None"
    and "isl (parseSinglePort r)"
proof -
  show r: "isl (parseSinglePort r)"
  proof (cases "parseSinglePort r")
    case (Inr b)
    then have "CHR ''-'' \<notin> set r" by (rule parseSinglePort_chars)
    with assms(2) show ?thesis by simp
  qed simp
  then show "tokenPorts (l @ CHR ''-'' # r) = None"
    by (auto simp: tokenPorts_range [OF assms(1)] parsePortRange_split [OF assms(1)] isl_def
        split: sum.splits)
qed

lemma tokenPorts_empty_side:
  assumes "TrimSpace l = [] \<or> TrimSpace r = []"
  shows "tokenPorts (l @ CHR ''-'' # r) = None"
proof (cases "CHR ''-'' \<in> set l")
  case False
  with assms show ?thesis
    by (simp add: tokenPorts_range parsePortRange_split)
next
  case True
  then obtain l0 m where l: "l = l0 @ CHR ''-'' # m" "CHR ''-'' \<notin> set l0"
    by (rule split_at_first)
  then have "l @ CHR ''-'' # r = l0 @ CHR ''-'' # (m @ CHR ''-'' # r)" by simp
  moreover have "CHR ''-'' \<in> set (m @ CHR ''-'' # r)" by simp
  ultimately show ?thesis
    using tokenPorts_second_hyphen(1) [OF l(2), of "m @ CHR ''-'' # r"] by simp
qed

lemma expandPortSpec_isl_iff:
  "isl (expandPortSpec spec) \<longleftrightarrow> (\<exists>t\<in>set (Split spec (CHR '','')). tokenPorts t = None)"
proof -
  have "isl (expandPortSpec spec) \<longleftrightarrow> \<not> (\<exists>ps. expandPortSpec spec = Inr ps)"
    by (cases "expandPortSpec spec") simp_all
  moreover have "(\<exists>ps. expandPortSpec spec = Inr ps) \<longleftrightarrow>
      (\<forall>t\<in>set (Split spec (CHR '','')). tokenPorts t \<noteq> None)"
    by (simp add: expandPortSpec_Inr_iff)
  ultimately show ?thesis by simp
qed

lemma first_hyphen:
  assumes "CHR ''-'' \<in> set tok"
  obtains l r where "tok = l @ CHR ''-'' # r" "CHR ''-'' \<notin> set l"
  using assms by (rule split_at_first)

subsection \<open>The scan engine keeps to the plan\<close>

lemma held_update:
  "held (ws[i := w]) \<subseteq> held ws \<union> held [w]"
proof -
  have "set (ws[i := w]) \<subseteq> insert w (set ws)" by (rule set_update_subset_insert)
  then show ?thesis by (auto simp: held_def)
qed

lemma held_nth:
  assumes "i < length ws"
  shows "ws ! i = Probing p \<Longrightarrow> p \<in> held ws" and "ws ! i = Publishing p \<Longrightarrow> p \<in> held ws"
  using assms nth_mem [of i ws] by (auto simp: held_def)

lemma held_simps [simp]:
  "held [Waiting] = {}" "held [Done] = {}" "held [Probing p] = {p}" "held [Publishing p] = {p}"
  by (auto simp: held_def)

lemma held_replicate_Waiting [simp]: "held (replicate n Waiting) = {}"
  by (auto simp: held_def)

lemma scanInv_init: "scanInv plan (initState workers plan)"
  by (simp add: scanInv_def initState_def)

lemma scanInv_step:
  assumes "scanInv plan s" and "scanStep workers resbuf ev s = Some s'"
  shows "scanInv plan s'"
proof (cases ev)
  case Feed
  with assms show ?thesis
    by (auto simp: scanInv_def split: list.splits if_splits)
next
  case ClosePorts
  with assms show ?thesis
    by (auto simp: scanInv_def split: if_splits)
next
  case (Receive i)
  show ?thesis
  proof (cases "ports s")
    case Nil
    with assms Receive have s': "s' = s\<lparr>workerStates := (workerStates s)[i := Done]\<rparr>"
      by (auto split: if_splits)
    have "held ((workerStates s)[i := Done]) \<subseteq> held (workerStates s)"
      using held_update [of "workerStates s" i Done] by simp
    with assms(1) show ?thesis unfolding s' scanInv_def by auto
  next
    case (Cons p rest)
    with assms Receive have s':
      "s' = s\<lparr>ports := rest, workerStates := (workerStates s)[i := Probing p]\<rparr>"
      by (auto split: if_splits)
    have "held ((workerStates s)[i := Probing p]) \<subseteq> held (workerStates s) \<union> {p}"
      using held_update [of "workerStates s" i "Probing p"] by simp
    with assms(1) Cons show ?thesis unfolding s' scanInv_def by auto
  qed
next
  case (ProbeResult i ok)
  with assms obtain p where i: "i < length (workerStates s)" and p: "workerStates s ! i = Probing p"
    and s': "s' = s\<lparr>workerStates := (workerStates s)[i := (if ok then Publishing p else Waiting)]\<rparr>"
    by (auto split: if_splits workerState.splits)
  from i p have "p \<in> held (workerStates s)" by (rule held_nth)
  moreover have "held ((workerStates s)[i := (if ok then Publishing p else Waiting)])
      \<subseteq> held (workerStates s) \<union> {p}"
    using held_update [of "workerStates s" i "if ok then Publishing p else Waiting"] by auto
  ultimately show ?thesis using assms(1) unfolding s' scanInv_def by auto
next
  case (Publish i)
  with assms obtain p where i: "i < length (workerStates s)"
    and p: "workerStates s ! i = Publishing p"
    and s': "s' = s\<lparr>results := results s @ [p],
                     workerStates := (workerStates s)[i := Waiting]\<rparr>"
    by (auto split: if_splits workerState.splits)
  from i p have "p \<in> held (workerStates s)" by (rule held_nth)
  moreover have "held ((workerStates s)[i := Waiting]) \<subseteq> held (workerStates s)"
    using held_update [of "workerStates s" i Waiting] by simp
  ultimately show ?thesis using assms(1) unfolding s' scanInv_def by auto
next
  case CloseResults
  with assms show ?thesis
    by (auto simp: scanInv_def split: if_splits)
next
  case Drain
  with assms show ?thesis
    by (auto simp: scanInv_def split: list.splits if_splits)
next
  case Finish
  with assms show ?thesis
    by (auto simp: scanInv_def split: if_splits)
qed

lemma scanInv_run:
  "scanInv plan s \<Longrightarrow> run workers resbuf evs s = Some s' \<Longrightarrow> scanInv plan s'"
proof (induction evs arbitrary: s)
  case Nil
  then show ?case by simp
next
  case (Cons ev evs)
  from Cons.prems(2) obtain s1 where 1: "scanStep workers resbuf ev s = Some s1"
    and 2: "run workers resbuf evs s1 = Some s'"
    by (auto split: option.splits)
  from Cons.prems(1) 1 have "scanInv plan s1" by (rule scanInv_step)
  then show ?case using 2 by (rule Cons.IH)
qed

lemma example_run:
  "scan 2 1 [22, 80, 443]
     [Feed, Feed, Receive 0, Receive 1, Feed, ClosePorts, ProbeResult 0 False, Receive 0,
      ProbeResult 0 True, Publish 0, ProbeResult 1 True, Drain, Publish 1, Drain,
      Receive 0, Receive 1, CloseResults, Finish] =
     Some \<lparr>feeder = [], ports = [], portsClosed = True, workerStates = [Done, Done],
           results = [], resultsClosed = True, openPorts = [80, 443], finished = True\<rparr>"
  by (simp add: scan_def initState_def eval_nat_numeral)

subsection \<open>Formatting and parsing back\<close>

lemma digitChar_digit: "d < 10 \<Longrightarrow> isDigit (digitChar d) \<and> digitVal (digitChar d) = d"
  by (simp add: isDigit_def digitVal_def digitChar_def)

lemma formatDigits_digits: "\<forall>c\<in>set (formatDigits n). isDigit c"
proof (induction n rule: formatDigits.induct)
  case (1 n)
  show ?case
  proof (cases "n < 10")
    case True
    then show ?thesis by (subst formatDigits.simps) (simp add: digitChar_digit)
  next
    case False
    with 1 have "\<forall>c\<in>set (formatDigits (n div 10)). isDigit c" by simp
    moreover have "isDigit (digitChar (n mod 10))" by (simp add: digitChar_digit)
    ultimately show ?thesis using False by (subst formatDigits.simps) simp
  qed
qed

lemma formatDigits_not_Nil: "formatDigits n \<noteq> []"
  by (subst formatDigits.simps) simp

lemma parseUintLoop_append:
  "parseUintLoop a (xs @ ys) =
     (case parseUintLoop a xs of Inl e \<Rightarrow> Inl e | Inr v \<Rightarrow> parseUintLoop v ys)"
  by (induction xs arbitrary: a) simp_all

lemma parseUintLoop_formatDigits:
  "n \<le> 2 ^ IntSize - 1 \<Longrightarrow> parseUintLoop 0 (formatDigits n) = Inr n"
proof (induction n rule: formatDigits.induct)
  case (1 n)
  show ?case
  proof (cases "n < 10")
    case True
    with "1.prems" show ?thesis
      by (subst formatDigits.simps) (simp add: digitChar_digit)
  next
    case False
    from "1.prems" have "n div 10 \<le> 2 ^ IntSize - 1" by (simp add: div_le_dividend le_trans)
    with 1 False have "parseUintLoop 0 (formatDigits (n div 10)) = Inr (n div 10)" by simp
    moreover have "n mod 10 < 10" by simp
    ultimately show ?thesis using False "1.prems"
      by (subst formatDigits.simps) (simp add: parseUintLoop_append digitChar_digit)
  qed
qed

lemma Itoa_nonneg: "0 \<le> n \<Longrightarrow> Itoa n = formatDigits (nat n)"
  by (simp add: Itoa_def)

lemma Itoa_port_chars:
  assumes "0 \<le> n"
  shows "Itoa n \<noteq> []" and "\<forall>c\<in>set (Itoa n). isDigit c"
  using assms by (simp_all add: Itoa_nonneg formatDigits_not_Nil formatDigits_digits)

lemma TrimSpace_Itoa: "0 \<le> n \<Longrightarrow> TrimSpace (Itoa n) = Itoa n"
proof (rule TrimSpace_plain_ends)
  assume n: "0 \<le> n"
  then show ne: "Itoa n \<noteq> []" by (rule Itoa_port_chars)
  from n have d: "\<forall>c\<in>set (Itoa n). isDigit c" by (rule Itoa_port_chars)
  with ne show "plain (hd (Itoa n))" by (simp add: plain_digit)
  from d ne show "plain (last (Itoa n))" by (simp add: plain_digit)
qed

lemma Atoi_Itoa:
  assumes "0 \<le> n" "n \<le> 65535"
  shows "Atoi (Itoa n) = Inr n"
proof -
  let ?s = "formatDigits (nat n)"
  have ne: "?s \<noteq> []" by (rule formatDigits_not_Nil)
  have "isDigit (hd ?s)" using ne formatDigits_digits [of "nat n"] by simp
  then have hd: "hd ?s \<noteq> CHR ''-''" "hd ?s \<noteq> CHR ''+''" using isDigit_not_sep by blast+
  have small: "nat n < 2 ^ (IntSize - 1)" "nat n \<le> 2 ^ IntSize - 1"
    using assms by (simp_all add: IntSize_def)
  then have "parseUintLoop 0 ?s = Inr (nat n)" by (simp add: parseUintLoop_formatDigits)
  with ne have "ParseUint ?s = Inr (nat n)" by (simp add: ParseUint_def)
  with ne hd small(1) assms(1) show ?thesis
    by (simp add: Atoi_def ParseInt_def Itoa_nonneg Let_def)
qed

lemma tokenPorts_Itoa:
  assumes "1 \<le> n" "n \<le> 65535"
  shows "tokenPorts (Itoa n) = Some {n}"
proof -
  from assms have n: "0 \<le> n" by simp
  have "CHR ''-'' \<notin> set (Itoa n)" using Itoa_port_chars(2) [OF n] isDigit_not_sep by blast
  moreover have "parseSinglePort (Itoa n) = Inr n"
    using assms by (simp add: parseSinglePort_def TrimSpace_Itoa Atoi_Itoa Itoa_port_chars(1))
  ultimately show ?thesis
    using n by (simp add: tokenPorts_single TrimSpace_Itoa Itoa_port_chars(1))
qed

lemma Split_Join:
  assumes "xs \<noteq> []" "\<forall>x\<in>set xs. CHR '','' \<notin> set x"
  shows "Split (Join xs '','') (CHR '','') = xs"
  using assms
proof (induction xs "'',''" rule: Join.induct)
  case 1
  then show ?case by simp
next
  case (2 x)
  then show ?case by (simp add: Split_no_sep)
next
  case (3 x y ys)
  then show ?case by (simp add: Split_sep)
qed

subsection \<open>A token within a specification\<close>

lemma expandPortSpec_token:
  assumes "CHR '','' \<notin> set t"
  shows "isl (expandPortSpec t) \<longleftrightarrow> tokenPorts t = None"
    and "tokenPorts t = Some S \<Longrightarrow> expandPortSpec t = Inr (sorted_list_of_set S)"
proof -
  from assms have s: "Split t (CHR '','') = [t]" by (rule Split_no_sep)
  show "isl (expandPortSpec t) \<longleftrightarrow> tokenPorts t = None"
    by (simp add: expandPortSpec_isl_iff s)
  show "tokenPorts t = Some S \<Longrightarrow> expandPortSpec t = Inr (sorted_list_of_set S)"
    by (simp add: expandPortSpec_Inr_iff s portsOf_def)
qed

lemma range_token_ok:
  assumes "parseSinglePort l = Inr a" and "parseSinglePort r = Inr b"
  shows "parsePortRange (l @ CHR ''-'' # r) =
           (if a > b then Inl (RangeStartGtEnd (TrimSpace (l @ CHR ''-'' # r))) else Inr (a, b))"
    and "tokenPorts (l @ CHR ''-'' # r) = (if a > b then None else Some {a..b})"
proof -
  from assms have nh: "CHR ''-'' \<notin> set l"
    and ne: "TrimSpace l \<noteq> []" "TrimSpace r \<noteq> []"
    by (auto dest: parseSinglePort_chars)
  show pr: "parsePortRange (l @ CHR ''-'' # r) =
      (if a > b then Inl (RangeStartGtEnd (TrimSpace (l @ CHR ''-'' # r))) else Inr (a, b))"
    using assms ne by (simp add: parsePortRange_split [OF nh])
  show "tokenPorts (l @ CHR ''-'' # r) = (if a > b then None else Some {a..b})"
    unfolding tokenPorts_range [OF nh] pr by simp
qed

section \<open>The claims\<close>

text \<open>
  C1. Whatever the number of workers, the capacity of the results channel, the outcome of
  the probes and the interleaving of the goroutines: when \<^verbatim>\<open>main\<close> has left its
  receive loop and sorted, \<^verbatim>\<open>openPorts\<close> is in ascending order and every port in it
  is a port of \<open>plan\<close>.
\<close>

theorem C1_open_ports_sorted_and_requested:
  assumes "scan workers resbuf plan schedule = Some s" and "finished s"
  shows "sorted (openPorts s) \<and> set (openPorts s) \<subseteq> set plan"
proof -
  from assms(1) have "scanInv plan s"
    unfolding scan_def using scanInv_init by (rule scanInv_run [rotated])
  with assms(2) show ?thesis by (auto simp: scanInv_def)
qed

theorem C1_witness:
  "scan 2 1 [22, 80, 443]
     [Feed, Feed, Receive 0, Receive 1, Feed, ClosePorts, ProbeResult 0 False, Receive 0,
      ProbeResult 0 True, Publish 0, ProbeResult 1 True, Drain, Publish 1, Drain,
      Receive 0, Receive 1, CloseResults, Finish] =
     Some \<lparr>feeder = [], ports = [], portsClosed = True, workerStates = [Done, Done],
           results = [], resultsClosed = True, openPorts = [80, 443], finished = True\<rparr> \<and>
   sorted [80, 443 :: int] \<and> set [80, 443 :: int] \<subseteq> set [22, 80, 443]"
  using C1_open_ports_sorted_and_requested [OF example_run] example_run by simp

text \<open>
  C2. \<^verbatim>\<open>expandPortSpec\<close> applied to the specification \<^verbatim>\<open>"80,443,8000-8002"\<close>
  succeeds and returns exactly the ascending sequence 80, 443, 8000, 8001, 8002.
\<close>

theorem C2_expand_example:
  "expandPortSpec ''80,443,8000-8002'' = Inr [80, 443, 8000, 8001, 8002]"
  by (simp add: eval_simps)



text \<open>
  C4. The expansion does not depend on the order of the tokens: when
  \<^verbatim>\<open>expandPortSpec\<close> succeeds on a specification, it succeeds with the same list on
  every specification whose comma-separated tokens are a permutation of the tokens of the
  first.
\<close>

theorem C4_expand_order_independent:
  assumes "expandPortSpec spec = Inr ps"
    and "mset (Split spec' (CHR '','')) = mset (Split spec (CHR '',''))"
  shows "expandPortSpec spec' = Inr ps"
proof -
  from assms(2) have "set (Split spec' (CHR '','')) = set (Split spec (CHR '',''))"
    by (rule mset_eq_setD)
  with assms(1) show ?thesis by (simp add: expandPortSpec_Inr_iff portsOf_def)
qed

theorem C4_witness:
  "expandPortSpec ''8000-8002, 80,443'' = Inr [80, 443, 8000, 8001, 8002] \<and>
   mset (Split ''443,8000-8002, 80'' (CHR '','')) = mset (Split ''8000-8002, 80,443'' (CHR '','')) \<and>
   expandPortSpec ''443,8000-8002, 80'' = Inr [80, 443, 8000, 8001, 8002]"
proof -
  have h1: "expandPortSpec ''8000-8002, 80,443'' = Inr [80, 443, 8000, 8001, 8002]"
    by (simp add: eval_simps)
  have h2: "mset (Split ''443,8000-8002, 80'' (CHR '','')) = mset (Split ''8000-8002, 80,443'' (CHR '',''))"
    by (simp add: Split.simps)
  from C4_expand_order_independent [OF h1 h2] h1 h2 show ?thesis by simp
qed

text \<open>
  C5. Expansion is idempotent through the canonical rendering: when \<^verbatim>\<open>expandPortSpec\<close>
  succeeds with the list \<open>ps\<close>, it succeeds on the decimal numbers of \<open>ps\<close> joined by
  commas, and returns \<open>ps\<close> again.
\<close>

theorem C5_expand_render_idempotent:
  assumes "expandPortSpec spec = Inr ps"
  shows "expandPortSpec (renderPorts ps) = Inr ps"
proof -
  have ne: "ps \<noteq> []" and range: "set ps \<subseteq> {1..65535}"
    using expandPortSpec_Inr_props [OF assms] by blast+
  from assms have ps: "ps = sorted_list_of_set (portsOf (Split spec (CHR '','')))"
    by (simp add: expandPortSpec_Inr_iff)
  then have "sorted_wrt (<) ps" by (simp add: strict_sorted_list_of_set)
  then have sd: "sorted ps" "distinct ps"
    by (simp_all add: strict_sorted_iff)
  have nonneg: "\<forall>n\<in>set ps. 0 \<le> n" using range by auto
  have "\<forall>x\<in>set (map Itoa ps). CHR '','' \<notin> set x"
    using nonneg Itoa_port_chars(2) isDigit_not_sep by fastforce
  with ne have split: "Split (renderPorts ps) (CHR '','') = map Itoa ps"
    unfolding renderPorts_def by (simp add: Split_Join)
  have tp: "\<forall>n\<in>set ps. tokenPorts (Itoa n) = Some {n}"
    using range tokenPorts_Itoa by auto
  then have "portsOf (map Itoa ps) = set ps" by (auto simp: portsOf_def)
  moreover have "sorted_list_of_set (set ps) = ps"
    using sd by (rule sorted_list_of_set.idem_if_sorted_distinct)
  ultimately show ?thesis using tp by (simp add: expandPortSpec_Inr_iff split)
qed

theorem C5_witness:
  "expandPortSpec ''8000-8002, 443,80,80'' = Inr [80, 443, 8000, 8001, 8002] \<and>
   renderPorts [80, 443, 8000, 8001, 8002] = ''80,443,8000,8001,8002'' \<and>
   expandPortSpec ''80,443,8000,8001,8002'' = Inr [80, 443, 8000, 8001, 8002]"
proof -
  have h: "expandPortSpec ''8000-8002, 443,80,80'' = Inr [80, 443, 8000, 8001, 8002]"
    by (simp add: eval_simps)
  have r: "renderPorts [80, 443, 8000, 8001, 8002] = ''80,443,8000,8001,8002''"
    by (simp add: renderPorts_def Itoa_def formatDigits.simps digitChar_def char_of_def bit_Suc_0_iff)
  from C5_expand_render_idempotent [OF h] h r show ?thesis by simp
qed

text \<open>
  C6. \<^verbatim>\<open>expandPortSpec\<close> fails, and returns an error in place of a port list,
  whenever the specification is empty or all white space (the error is then
  "empty ports spec"), whenever one of its comma-separated tokens is empty or all white
  space (as in \<^verbatim>\<open>"1,,2"\<close> or with a trailing comma), and whenever a token has a hyphen
  with nothing but white space on one of its sides.
\<close>

theorem C6_malformed_input_fails:
  "(TrimSpace spec = [] \<longrightarrow> expandPortSpec spec = Inl EmptyPortsSpec) \<and>
   ((\<exists>tok\<in>set (Split spec (CHR '','')). TrimSpace tok = []) \<longrightarrow> isl (expandPortSpec spec)) \<and>
   ((\<exists>tok\<in>set (Split spec (CHR '','')). \<exists>l r.
        tok = l @ ''-'' @ r \<and> (TrimSpace l = [] \<or> TrimSpace r = []))
      \<longrightarrow> isl (expandPortSpec spec))"
proof (intro conjI impI)
  assume "TrimSpace spec = []"
  then show "expandPortSpec spec = Inl EmptyPortsSpec" by (simp add: expandPortSpec_def)
next
  assume "\<exists>tok\<in>set (Split spec (CHR '','')). TrimSpace tok = []"
  then obtain tok where "tok \<in> set (Split spec (CHR '',''))" "tokenPorts tok = None"
    using tokenPorts_blank by blast
  then show "isl (expandPortSpec spec)"
    unfolding expandPortSpec_isl_iff by blast
next
  assume "\<exists>tok\<in>set (Split spec (CHR '','')). \<exists>l r.
        tok = l @ ''-'' @ r \<and> (TrimSpace l = [] \<or> TrimSpace r = [])"
  then obtain tok l r where tok: "tok \<in> set (Split spec (CHR '',''))"
    and eq: "tok = l @ ''-'' @ r" and e: "TrimSpace l = [] \<or> TrimSpace r = []" by blast
  from e have "tokenPorts (l @ CHR ''-'' # r) = None" by (rule tokenPorts_empty_side)
  with eq have "tokenPorts tok = None" by simp
  with tok show "isl (expandPortSpec spec)"
    unfolding expandPortSpec_isl_iff by blast
qed

theorem C6_witness:
  "expandPortSpec ''  '' = Inl EmptyPortsSpec \<and> isl (expandPortSpec ''1,,2'') \<and>
   isl (expandPortSpec ''1,2,'') \<and> isl (expandPortSpec ''22,80-'') \<and>
   isl (expandPortSpec ''22, -80'')"
proof -
  have a: "TrimSpace ''  '' = []" by (simp add: eval_simps)
  have b: "\<exists>tok\<in>set (Split ''1,,2'' (CHR '','')). TrimSpace tok = []"
    by (simp add: Split.simps)
  have c: "\<exists>tok\<in>set (Split ''1,2,'' (CHR '','')). TrimSpace tok = []"
    by (simp add: Split.simps)
  have d: "\<exists>tok\<in>set (Split ''22,80-'' (CHR '','')). \<exists>l r.
        tok = l @ ''-'' @ r \<and> (TrimSpace l = [] \<or> TrimSpace r = [])"
  proof (intro bexI exI conjI)
    show "''80-'' = ''80'' @ ''-'' @ []" by simp
    show "TrimSpace ''80'' = [] \<or> TrimSpace [] = []" by simp
    show "''80-'' \<in> set (Split ''22,80-'' (CHR '',''))" by (simp add: Split.simps)
  qed
  have e: "\<exists>tok\<in>set (Split ''22, -80'' (CHR '','')). \<exists>l r.
        tok = l @ ''-'' @ r \<and> (TrimSpace l = [] \<or> TrimSpace r = [])"
  proof (intro bexI exI conjI)
    show "'' -80'' = '' '' @ ''-'' @ ''80''" by simp
    show "TrimSpace '' '' = [] \<or> TrimSpace ''80'' = []" by (simp add: eval_simps)
    show "'' -80'' \<in> set (Split ''22, -80'' (CHR '',''))" by (simp add: Split.simps)
  qed
  note 1 = C6_malformed_input_fails [of "''  ''", THEN conjunct1, THEN mp, OF a]
  note 2 = C6_malformed_input_fails [of "''1,,2''", THEN conjunct2, THEN conjunct1, THEN mp, OF b]
  note 3 = C6_malformed_input_fails [of "''1,2,''", THEN conjunct2, THEN conjunct1, THEN mp, OF c]
  note 4 = C6_malformed_input_fails [of "''22,80-''", THEN conjunct2, THEN conjunct2, THEN mp, OF d]
  note 5 = C6_malformed_input_fails [of "''22, -80''", THEN conjunct2, THEN conjunct2, THEN mp, OF e]
  from 1 2 3 4 5 show ?thesis by (intro conjI)
qed

text \<open>
  C7. Every number of a token (the token itself when it has no hyphen, else the part
  before its first hyphen and the part after it) must be accepted by \<^verbatim>\<open>strconv.Atoi\<close>
  after trimming and lie between 1 and 65535. A token with a number that
  \<^verbatim>\<open>Atoi\<close> rejects, or that is out of this range, makes \<^verbatim>\<open>expandPortSpec\<close>
  fail for the whole specification.
\<close>

theorem C7_bad_number_fails:
  assumes "tok \<in> set (Split spec (CHR '',''))"
    and "v \<in> set (if Contains tok (CHR ''-'') then SplitN2 tok (CHR ''-'') else [tok])"
    and "\<forall>n. Atoi (TrimSpace v) = Inr n \<longrightarrow> n < 1 \<or> 65535 < n"
  shows "isl (expandPortSpec spec)"
proof -
  have bad: "isl (parseSinglePort v)"
  proof (cases "parseSinglePort v")
    case (Inr n)
    then have "Atoi (TrimSpace v) = Inr n \<and> 1 \<le> n \<and> n \<le> 65535" by (rule parseSinglePort_Inr)
    with assms(3) show ?thesis by fastforce
  qed simp
  have "tokenPorts tok = None"
  proof (cases "CHR ''-'' \<in> set tok")
    case False
    with assms(2) have "v = tok" by (simp add: Contains_def)
    with bad False show ?thesis by (auto simp: tokenPorts_single isl_def)
  next
    case True
    then obtain l r where tok: "tok = l @ CHR ''-'' # r" "CHR ''-'' \<notin> set l"
      by (rule first_hyphen)
    with assms(2) have "v = l \<or> v = r" by (simp add: Contains_def SplitN2_sep)
    with bad show ?thesis
      unfolding tok(1) tokenPorts_range [OF tok(2)] parsePortRange_split [OF tok(2)]
      by (auto simp: isl_def split: sum.splits)
  qed
  with assms(1) show ?thesis unfolding expandPortSpec_isl_iff by blast
qed

theorem C7_witness:
  "isl (expandPortSpec ''22,http'') \<and> isl (expandPortSpec ''22,65536'') \<and>
   isl (expandPortSpec ''22,0-80'') \<and> isl (expandPortSpec ''22,80-x'')"
proof -
  have t: "Split ''22,http'' (CHR '','') = [''22'', ''http'']"
    "Split ''22,65536'' (CHR '','') = [''22'', ''65536'']"
    "Split ''22,0-80'' (CHR '','') = [''22'', ''0-80'']"
    "Split ''22,80-x'' (CHR '','') = [''22'', ''80-x'']"
    by (simp_all add: Split.simps)
  have plain_more: "plain (CHR ''h'')" "plain (CHR ''p'')" "plain (CHR ''x'')"
    by (simp_all add: plain_def spaceEncodings_def)
  have a: "\<forall>n. Atoi (TrimSpace ''http'') = Inr n \<longrightarrow> n < 1 \<or> 65535 < n"
    by (simp add: eval_simps plain_more)
  have b: "\<forall>n. Atoi (TrimSpace ''65536'') = Inr n \<longrightarrow> n < 1 \<or> 65535 < n"
    by (simp add: eval_simps)
  have c: "\<forall>n. Atoi (TrimSpace ''0'') = Inr n \<longrightarrow> n < 1 \<or> 65535 < n"
    by (simp add: eval_simps)
  have d: "\<forall>n. Atoi (TrimSpace ''x'') = Inr n \<longrightarrow> n < 1 \<or> 65535 < n"
    by (simp add: eval_simps plain_more)
  have "isl (expandPortSpec ''22,http'')"
    by (rule C7_bad_number_fails [of "''http''" _ "''http''"]) (simp_all add: t a Contains_def)
  moreover have "isl (expandPortSpec ''22,65536'')"
    by (rule C7_bad_number_fails [of "''65536''" _ "''65536''"]) (simp_all add: t b Contains_def)
  moreover have "isl (expandPortSpec ''22,0-80'')"
    by (rule C7_bad_number_fails [of "''0-80''" _ "''0''"]) (simp_all add: t c Contains_def SplitN2_def)
  moreover have "isl (expandPortSpec ''22,80-x'')"
    by (rule C7_bad_number_fails [of "''80-x''" _ "''x''"]) (simp_all add: t d Contains_def SplitN2_def)
  ultimately show ?thesis by blast
qed

text \<open>
  C8. Let \<open>tok\<close> be a range token \<open>l-r\<close> of a specification, that is, one of its
  comma-separated tokens, whose two bounds parse as the ports \<open>a\<close> and \<open>b\<close>. Then
  \<^verbatim>\<open>parsePortRange\<close> rejects the token exactly when \<open>a > b\<close>, with the error
  "range start > end". \<^verbatim>\<open>expandPortSpec\<close> fails on the specification exactly when
  \<open>a > b\<close> or another token fails by itself; when it succeeds, \<open>a \<le> b\<close> and the ports of the
  result are the ports from \<open>a\<close> to \<open>b\<close> together with the ports of the other tokens. For
  the specification that is this one token, the result is the error for \<open>a > b\<close> and the
  list of the ports from \<open>a\<close> to \<open>b\<close> otherwise; a range with \<open>a = b\<close> is valid and gives
  the one port \<open>a\<close>.
\<close>

theorem C8_range_bounds_order:
  assumes "tok \<in> set (Split spec (CHR '',''))" and "tok = l @ ''-'' @ r"
    and "parseSinglePort l = Inr a" and "parseSinglePort r = Inr b"
  shows "parsePortRange tok =
           (if a > b then Inl (RangeStartGtEnd (TrimSpace tok)) else Inr (a, b)) \<and>
         (isl (expandPortSpec spec) \<longleftrightarrow>
            a > b \<or> (\<exists>t\<in>set (Split spec (CHR '','')). t \<noteq> tok \<and> isl (expandPortSpec t))) \<and>
         (\<forall>ps. expandPortSpec spec = Inr ps \<longrightarrow>
            a \<le> b \<and>
            set ps = {a..b} \<union>
              (\<Union>t\<in>set (Split spec (CHR '','')) - {tok}. set (projr (expandPortSpec t)))) \<and>
         (spec = tok \<longrightarrow>
            expandPortSpec spec =
              (if a > b
               then Inl (InvalidRangeToken (TrimSpace tok) (RangeStartGtEnd (TrimSpace tok)))
               else Inr [a..b])) \<and>
         (spec = tok \<longrightarrow> a = b \<longrightarrow> expandPortSpec spec = Inr [a])"
proof -
  let ?toks = "Split spec (CHR '','')"
  have tok: "tok = l @ CHR ''-'' # r" using assms(2) by simp
  have pr: "parsePortRange tok =
      (if a > b then Inl (RangeStartGtEnd (TrimSpace tok)) else Inr (a, b))"
    unfolding tok using assms(3,4) by (rule range_token_ok)
  have tp: "tokenPorts tok = (if a > b then None else Some {a..b})"
    unfolding tok using assms(3,4) by (rule range_token_ok)
  have nc: "\<And>t. t \<in> set ?toks \<Longrightarrow> CHR '','' \<notin> set t" by (rule Split_token_no_sep)
  have other: "\<And>t. t \<in> set ?toks \<Longrightarrow> isl (expandPortSpec t) \<longleftrightarrow> tokenPorts t = None"
    using nc expandPortSpec_token(1) by blast
  have fails: "isl (expandPortSpec spec) \<longleftrightarrow>
      a > b \<or> (\<exists>t\<in>set ?toks. t \<noteq> tok \<and> isl (expandPortSpec t))"
  proof
    assume "isl (expandPortSpec spec)"
    then obtain t where t: "t \<in> set ?toks" "tokenPorts t = None"
      unfolding expandPortSpec_isl_iff by blast
    show "a > b \<or> (\<exists>t\<in>set ?toks. t \<noteq> tok \<and> isl (expandPortSpec t))"
    proof (cases "t = tok")
      case True
      with t(2) tp show ?thesis by (simp split: if_splits)
    next
      case False
      with t other show ?thesis by blast
    qed
  next
    assume "a > b \<or> (\<exists>t\<in>set ?toks. t \<noteq> tok \<and> isl (expandPortSpec t))"
    then have "\<exists>t\<in>set ?toks. tokenPorts t = None"
    proof
      assume "a > b"
      with tp assms(1) show ?thesis by auto
    next
      assume "\<exists>t\<in>set ?toks. t \<noteq> tok \<and> isl (expandPortSpec t)"
      with other show ?thesis by blast
    qed
    then show "isl (expandPortSpec spec)" unfolding expandPortSpec_isl_iff .
  qed
  have contrib: "a \<le> b \<and> set ps = {a..b} \<union>
        (\<Union>t\<in>set ?toks - {tok}. set (projr (expandPortSpec t)))"
    if ok: "expandPortSpec spec = Inr ps" for ps
  proof -
    from ok have all: "\<forall>t\<in>set ?toks. tokenPorts t \<noteq> None"
      by (simp add: expandPortSpec_Inr_iff)
    with assms(1) tp have le: "a \<le> b" by (auto split: if_splits)
    with tp have tp': "the (tokenPorts tok) = {a..b}" by simp
    have each: "set (projr (expandPortSpec t)) = the (tokenPorts t)" if "t \<in> set ?toks" for t
    proof -
      from that all obtain S where S: "tokenPorts t = Some S" by auto
      then have "finite S" using tokenPorts_Some by blast
      moreover from that S have "expandPortSpec t = Inr (sorted_list_of_set S)"
        using nc expandPortSpec_token(2) by blast
      ultimately show ?thesis using S by simp
    qed
    have "set ps = portsOf ?toks" using ok by (rule expandPortSpec_Inr_props)
    also have "\<dots> = the (tokenPorts tok) \<union> (\<Union>t\<in>set ?toks - {tok}. the (tokenPorts t))"
      using assms(1) by (auto simp: portsOf_def)
    also have "\<dots> = {a..b} \<union> (\<Union>t\<in>set ?toks - {tok}. set (projr (expandPortSpec t)))"
      using each tp' by simp
    finally show ?thesis using le by simp
  qed
  have single: "expandPortSpec tok =
      (if a > b
       then Inl (InvalidRangeToken (TrimSpace tok) (RangeStartGtEnd (TrimSpace tok)))
       else Inr [a..b])"
  proof -
    let ?t = "TrimSpace tok"
    have t: "?t = trimLeftSpace l @ CHR ''-'' # trimRightSpace r"
      unfolding tok using plain_hyphen by (rule TrimSpace_sep)
    then have tne: "?t \<noteq> []" and th: "Contains ?t (CHR ''-'')" by (simp_all add: Contains_def)
    have "CHR '','' \<notin> set tok" using assms(1) by (rule nc)
    then have "CHR '','' \<notin> set ?t" using set_TrimSpace by blast
    then have sp: "Split ?t (CHR '','') = [?t]" by (rule Split_no_sep)
    have "sorted_list_of_set {a..b} = [a..b]" by (rule sorted_lift_of_set_eq_upto)
    then show ?thesis
      by (simp add: expandPortSpec_def Let_def tne sp th pr seenSingles_eq seenRanges_eq
          rangesSet_def)
  qed
  from pr fails contrib single show ?thesis by simp
qed

theorem C8_witness:
  "isl (expandPortSpec ''22,5-3'') \<and>
   expandPortSpec ''22,100-100'' = Inr [22, 100] \<and>
   set [22, 100 :: int] = {100..100} \<union> set [22] \<and>
   expandPortSpec ''100-100'' = Inr [100] \<and>
   isl (expandPortSpec ''5-3'') \<and>
   parsePortRange ''5-3'' = Inl (RangeStartGtEnd ''5-3'') \<and>
   expandPortSpec ''8000-8002'' = Inr [8000, 8001, 8002]"
proof -
  have p: "parseSinglePort ''100'' = Inr 100" "parseSinglePort ''5'' = Inr 5"
    "parseSinglePort ''3'' = Inr 3" "parseSinglePort ''8000'' = Inr 8000"
    "parseSinglePort ''8002'' = Inr 8002"
    by (simp_all add: eval_simps)
  have s: "''5-3'' \<in> set (Split ''22,5-3'' (CHR '',''))"
    "''100-100'' \<in> set (Split ''22,100-100'' (CHR '',''))"
    "''100-100'' \<in> set (Split ''100-100'' (CHR '',''))"
    "''5-3'' \<in> set (Split ''5-3'' (CHR '',''))"
    "''8000-8002'' \<in> set (Split ''8000-8002'' (CHR '',''))"
    by (simp_all add: Split.simps)
  have e: "''5-3'' = ''5'' @ ''-'' @ ''3''" "''100-100'' = ''100'' @ ''-'' @ ''100''"
    "''8000-8002'' = ''8000'' @ ''-'' @ ''8002''"
    by simp_all
  have h: "expandPortSpec ''22,100-100'' = Inr [22, 100]" "expandPortSpec ''22'' = Inr [22]"
    by (simp_all add: eval_simps)
  have t: "TrimSpace ''5-3'' = ''5-3''" by (simp add: eval_simps)
  note a = C8_range_bounds_order [OF s(1) e(1) p(2) p(3)]
  note b = C8_range_bounds_order [OF s(2) e(2) p(1) p(1)]
  note c = C8_range_bounds_order [OF s(3) e(2) p(1) p(1)]
  note d = C8_range_bounds_order [OF s(4) e(1) p(2) p(3)]
  note f = C8_range_bounds_order [OF s(5) e(3) p(4) p(5)]
  from a have 1: "isl (expandPortSpec ''22,5-3'')" by simp
  from b h have 2: "set [22, 100 :: int] = {100..100} \<union> set [22]" by simp
  from c have 3: "expandPortSpec ''100-100'' = Inr [100]" by simp
  from d t have 4: "isl (expandPortSpec ''5-3'')"
    "parsePortRange ''5-3'' = Inl (RangeStartGtEnd ''5-3'')" by simp_all
  from f have 5: "expandPortSpec ''8000-8002'' = Inr [8000, 8001, 8002]"
    by (simp add: upto_rec1)
  from 1 h(1) 2 3 4 5 show ?thesis by simp
qed

text \<open>
  C9. A single-port token with a leading plus sign is accepted, since \<^verbatim>\<open>strconv.Atoi\<close>
  accepts an optional sign: \<^verbatim>\<open>"+80"\<close> expands to the same list as \<^verbatim>\<open>"80"\<close>, the
  list of the one port 80.
\<close>

theorem C9_leading_plus_accepted:
  "expandPortSpec ''+80'' = Inr [80] \<and> expandPortSpec ''+80'' = expandPortSpec ''80''"
  by (simp add: eval_simps)

text \<open>
  C10 (amended). A token with two or more hyphens makes \<^verbatim>\<open>expandPortSpec\<close> fail: the
  token is classified as a range, \<^verbatim>\<open>SplitN\<close> cuts it at its first hyphen only, and
  the right part, which still has a hyphen, is rejected as a port by
  \<^verbatim>\<open>parseSinglePort\<close>: either \<^verbatim>\<open>strconv.Atoi\<close> does not accept it, or it is a
  minus sign before digits, which \<^verbatim>\<open>Atoi\<close> reads as a number that is not positive and
  so out of range.
\<close>

theorem C10_two_hyphens_fail:
  assumes "tok \<in> set (Split spec (CHR '',''))"
    and "2 \<le> count_list tok (CHR ''-'')"
  shows "isl (expandPortSpec spec) \<and>
         Contains (TrimSpace tok) (CHR ''-'') \<and>
         (\<exists>p0 p1. SplitN2 (TrimSpace tok) (CHR ''-'') = [p0, p1] \<and>
            Contains p1 (CHR ''-'') \<and> isl (parseSinglePort p1) \<and>
            (isl (Atoi (TrimSpace p1)) \<or> (\<exists>n. Atoi (TrimSpace p1) = Inr n \<and> n \<le> 0)))"
proof -
  from assms(2) have "CHR ''-'' \<in> set tok" by (auto simp: count_list_0_iff intro: ccontr)
  then obtain l r where tok: "tok = l @ CHR ''-'' # r" "CHR ''-'' \<notin> set l"
    by (rule first_hyphen)
  with assms(2) have "1 \<le> count_list r (CHR ''-'')" by (simp add: count_list_0_iff)
  then have r: "CHR ''-'' \<in> set r" by (auto simp: count_list_0_iff intro: ccontr)
  have t: "TrimSpace tok = trimLeftSpace l @ CHR ''-'' # trimRightSpace r"
    unfolding tok(1) using plain_hyphen by (rule TrimSpace_sep)
  have "CHR ''-'' \<notin> set (trimLeftSpace l)" using tok(2) set_trimLeftSpace by blast
  then have s: "SplitN2 (TrimSpace tok) (CHR ''-'') = [trimLeftSpace l, trimRightSpace r]"
    unfolding t by (rule SplitN2_sep)
  have rt: "CHR ''-'' \<in> set (TrimSpace r)"
    using r plain_in_TrimSpace [OF plain_hyphen] by blast
  then have r': "CHR ''-'' \<in> set (trimRightSpace r)"
    using set_TrimSpace [of "trimRightSpace r"] by auto
  have port: "isl (parseSinglePort (trimRightSpace r))"
  proof (cases "parseSinglePort (trimRightSpace r)")
    case (Inr n)
    then have "CHR ''-'' \<notin> set (trimRightSpace r)" by (rule parseSinglePort_chars)
    with r' show ?thesis by simp
  qed simp
  have num: "isl (Atoi (TrimSpace (trimRightSpace r))) \<or>
      (\<exists>n. Atoi (TrimSpace (trimRightSpace r)) = Inr n \<and> n \<le> 0)"
  proof (cases "Atoi (TrimSpace r)")
    case (Inl e)
    then show ?thesis by simp
  next
    case (Inr n)
    have "n \<le> 0"
    proof (rule ccontr)
      assume "\<not> n \<le> 0"
      then have "1 \<le> n" by simp
      with Inr have "CHR ''-'' \<notin> set (TrimSpace r)" using Atoi_positive_chars by blast
      with rt show False by simp
    qed
    with Inr show ?thesis by simp
  qed
  have "tokenPorts tok = None"
    unfolding tok(1) using tok(2) r by (rule tokenPorts_second_hyphen)
  with assms(1) have "isl (expandPortSpec spec)" unfolding expandPortSpec_isl_iff by blast
  with port num show ?thesis using s r' t by (simp add: Contains_def)
qed

theorem C10_witness:
  "isl (expandPortSpec ''22,80-90-100'') \<and> isl (expandPortSpec ''5--3'') \<and>
   isl (parseSinglePort ''90-100'') \<and> isl (Atoi ''90-100'') \<and>
   isl (parseSinglePort ''-3'')"
proof -
  have t: "''80-90-100'' \<in> set (Split ''22,80-90-100'' (CHR '',''))"
    "''5--3'' \<in> set (Split ''5--3'' (CHR '',''))"
    by (simp_all add: Split.simps)
  have c: "2 \<le> count_list ''80-90-100'' (CHR ''-'')" "2 \<le> count_list ''5--3'' (CHR ''-'')"
    by simp_all
  have s: "SplitN2 (TrimSpace ''80-90-100'') (CHR ''-'') = [''80'', ''90-100'']"
    "SplitN2 (TrimSpace ''5--3'') (CHR ''-'') = [''5'', ''-3'']"
    by (simp_all add: eval_simps)
  have a: "Atoi ''90-100'' = Inl ErrSyntax" by (simp add: eval_simps)
  from C10_two_hyphens_fail [OF t(1) c(1)] C10_two_hyphens_fail [OF t(2) c(2)] s a
  show ?thesis by auto
qed

text \<open>
  C10 as it was stated says that the right part cannot parse as an integer. The token
  \<^verbatim>\<open>"5--3"\<close> has two hyphens and its right part is \<^verbatim>\<open>"-3"\<close>, which
  \<^verbatim>\<open>strconv.Atoi\<close> parses as the integer -3; the expansion fails on the range test
  ("port out of range"), not on the parse.
\<close>

theorem C10_counterexample:
  "2 \<le> count_list ''5--3'' (CHR ''-'') \<and>
   SplitN2 (TrimSpace ''5--3'') (CHR ''-'') = [''5'', ''-3''] \<and>
   Contains ''-3'' (CHR ''-'') \<and>
   Atoi (TrimSpace ''-3'') = Inr (- 3) \<and>
   \<not> isl (Atoi (TrimSpace ''-3'')) \<and>
   expandPortSpec ''5--3'' =
     Inl (InvalidRangeToken ''5--3'' (InvalidRightBound ''-3'' (PortOutOfRange (- 3))))"
  by (simp add: eval_simps)

end
